theory Spec2Isabelle
  imports Main
begin

section \<open>Maximum flow: the Ford-Fulkerson and Edmonds-Karp engines\<close>

text \<open>
  The two engines of \<^verbatim>\<open>ford_fulkerson.hpp\<close> and \<^verbatim>\<open>edmonds_karp.hpp\<close>, embedded
  function by function.

  \<^item> \<^verbatim>\<open>index_t\<close> (a vertex index, \<^verbatim>\<open>int32_t\<close>) is \<open>nat\<close>: the source only ever
    subscripts vectors with it.  A subscript outside the vector is undefined behaviour
    in the source; the theorems below are about engines whose indices are in range
    (\<open>wf_net\<close>), which is what building an engine from a graph with in-range endpoints
    gives.
  \<^item> \<^verbatim>\<open>capacity_t\<close> (\<^verbatim>\<open>int32_t\<close>) is \<open>int\<close>: capacities, flows and the accumulated
    flow value are mathematical integers, that is, the model is the source as long as no
    \<^verbatim>\<open>int32_t\<close> operation overflows.
  \<^item> \<^verbatim>\<open>matrix_t\<close> is a list of rows, \<^verbatim>\<open>stamps_t\<close> a list of booleans,
    \<^verbatim>\<open>std::vector<indices_t>\<close> a list of adjacency lists.
  \<^item> The predecessor array \<^verbatim>\<open>pi\<close> holds \<open>Some u\<close> for a vertex index and \<open>None\<close> for
    the sentinel \<^verbatim>\<open>limits::nil\<close> (a negative number, never a valid subscript).
\<close>

subsection \<open>Types and constants of graph.hpp\<close>

type_synonym index_t = nat
type_synonym capacity_t = int
type_synonym array_t = "int list"
type_synonym matrix_t = "int list list"
type_synonym indices_t = "nat list"
type_synonym stamps_t = "bool list"

text \<open>\<^verbatim>\<open>limits::inf = std::numeric_limits<int32_t>::max() / 3\<close>.\<close>

definition limits_inf :: int where
  "limits_inf = 2147483647 div 3"

text \<open>\<^verbatim>\<open>struct edge { index_t src; index_t dst; union { weight_t w; capacity_t c; }; }\<close>;
  the capacity field is called \<open>ecap\<close> here, \<open>c\<close> being the engine's capacity matrix.\<close>

record edge =
  src :: index_t
  dst :: index_t
  ecap :: capacity_t

type_synonym edges_t = "edge list"
type_synonym graph_t = "edges_t list"

subsection \<open>The engines' state\<close>

text \<open>
  Both structs hold \<^verbatim>\<open>visited\<close>, \<^verbatim>\<open>c\<close>, \<^verbatim>\<open>f\<close>, \<^verbatim>\<open>Gf\<close> and \<^verbatim>\<open>n\<close>;
  \<^verbatim>\<open>ford_fulkerson\<close> adds \<^verbatim>\<open>augment\<close> and \<^verbatim>\<open>edmonds_karp\<close> adds \<^verbatim>\<open>pi\<close>.  The shared
  members are the record \<open>net\<close>, which each engine extends.

  \<open>hist\<close> is not a member of the source: it is the history of the flow matrix, one entry
  per assignment to an element of \<^verbatim>\<open>f\<close> made by an augmentation, in execution order.
  Nothing reads it; it makes the intermediate flow matrices of a run observable.
\<close>

record net =
  visited :: stamps_t
  c :: matrix_t
  f :: matrix_t
  Gf :: "indices_t list"
  n :: index_t
  hist :: "matrix_t list"

record ford_fulkerson = net +
  augment :: capacity_t

record edmonds_karp = net +
  pi :: "index_t option list"

text \<open>\<^verbatim>\<open>m[u][v] = x\<close> on a matrix.\<close>

definition mat_set :: "matrix_t \<Rightarrow> nat \<Rightarrow> nat \<Rightarrow> int \<Rightarrow> matrix_t" where
  "mat_set m u v x = m[u := (m ! u)[v := x]]"

text \<open>The constructors \<^verbatim>\<open>ford_fulkerson(size)\<close> and \<^verbatim>\<open>edmonds_karp(size)\<close>: zero
  matrices and empty adjacency lists.  \<^verbatim>\<open>ford_fulkerson\<close> leaves \<^verbatim>\<open>visited\<close> empty.\<close>

definition ford_fulkerson_init :: "nat \<Rightarrow> ford_fulkerson" where
  "ford_fulkerson_init sz =
     \<lparr>visited = [], c = replicate sz (replicate sz 0),
      f = replicate sz (replicate sz 0), Gf = replicate sz [], n = sz,
      hist = [], augment = 0\<rparr>"

definition edmonds_karp_init :: "nat \<Rightarrow> edmonds_karp" where
  "edmonds_karp_init sz =
     \<lparr>visited = replicate sz False, c = replicate sz (replicate sz 0),
      f = replicate sz (replicate sz 0), Gf = replicate sz [], n = sz,
      hist = [], pi = replicate sz (Some 0)\<rparr>"

text \<open>\<^verbatim>\<open>add_edge(u, v, cap)\<close>, the same in both structs:
  \<^verbatim>\<open>c[u][v] = cap; f[u][v] = 0; c[v][u] = 0; f[v][u] = 0;
  Gf[u].push_back(v); Gf[v].push_back(u);\<close>\<close>

definition add_edge :: "nat \<Rightarrow> nat \<Rightarrow> int \<Rightarrow> 'a net_scheme \<Rightarrow> 'a net_scheme" where
  "add_edge u v cap st =
     (let c1 = mat_set (c st) u v cap;
          f1 = mat_set (f st) u v 0;
          c2 = mat_set c1 v u 0;
          f2 = mat_set f1 v u 0;
          G1 = (Gf st)[u := Gf st ! u @ [v]];
          G2 = G1[v := G1 ! v @ [u]]
      in st\<lparr>c := c2, f := f2, Gf := G2\<rparr>)"

text \<open>The constructors from a graph: \<^verbatim>\<open>for (i = 0; i < n; ++i) for (e : G[i])
  add_edge(e.src, e.dst, e.c)\<close>.\<close>

definition ford_fulkerson_of :: "graph_t \<Rightarrow> ford_fulkerson" where
  "ford_fulkerson_of G =
     fold (\<lambda>e. add_edge (src e) (dst e) (ecap e)) (concat G) (ford_fulkerson_init (length G))"

definition edmonds_karp_of :: "graph_t \<Rightarrow> edmonds_karp" where
  "edmonds_karp_of G =
     fold (\<lambda>e. add_edge (src e) (dst e) (ecap e)) (concat G) (edmonds_karp_init (length G))"

text \<open>\<^verbatim>\<open>cf(u, v) = c[u][v] - f[u][v]\<close>.\<close>

definition cf :: "'a net_scheme \<Rightarrow> nat \<Rightarrow> nat \<Rightarrow> int" where
  "cf st u v = c st ! u ! v - f st ! u ! v"

text \<open>\<^verbatim>\<open>f[u][v] += d\<close>, recorded in the history.\<close>

definition add_flow :: "nat \<Rightarrow> nat \<Rightarrow> int \<Rightarrow> 'a net_scheme \<Rightarrow> 'a net_scheme" where
  "add_flow u v d st =
     (let m = mat_set (f st) u v (f st ! u ! v + d) in st\<lparr>f := m, hist := hist st @ [m]\<rparr>)"

subsection \<open>Ford-Fulkerson: depth-first search with fused augmentation\<close>

text \<open>
  \<^verbatim>\<open>dfs_visit(u, t, flow)\<close> and its loop over \<^verbatim>\<open>Gf[u]\<close> (\<open>dfs_for\<close>, with the part of
  the adjacency list still to be looked at).  The first argument bounds the depth of the
  recursion; \<open>None\<close> is "deeper than that".  \<open>dfs\<close> starts with depth \<open>n\<close>, which is
  never exceeded on a well-formed engine (lemma \<open>dfs_visit_returns\<close>).
\<close>

fun dfs_visit :: "nat \<Rightarrow> ford_fulkerson \<Rightarrow> nat \<Rightarrow> nat \<Rightarrow> int \<Rightarrow> (ford_fulkerson \<times> int) option"
and dfs_for :: "nat \<Rightarrow> ford_fulkerson \<Rightarrow> nat \<Rightarrow> nat list \<Rightarrow> nat \<Rightarrow> int \<Rightarrow> (ford_fulkerson \<times> int) option"
where
  "dfs_visit 0 st u t flow = None"
| "dfs_visit (Suc k) st u t flow =
     (let st1 = st\<lparr>visited := (visited st)[u := True]\<rparr> in
      if u = t then Some (st1, flow) else dfs_for k st1 u (Gf st1 ! u) t flow)"
| "dfs_for k st u [] t flow = Some (st, 0)"
| "dfs_for k st u (v # vs) t flow =
     (if visited st ! v \<or> cf st u v = 0 then dfs_for k st u vs t flow
      else case dfs_visit k st v t (min flow (cf st u v)) of
             None \<Rightarrow> None
           | Some (st', cf_p) \<Rightarrow>
               if cf_p > 0
               then Some (add_flow v u (- cf_p) (add_flow u v cf_p st'), cf_p)
               else dfs_for k st' u vs t flow)"

text \<open>\<^verbatim>\<open>dfs(u, t)\<close>: \<^verbatim>\<open>visited.assign(n, false); augment = dfs_visit(u, t, limits::inf);
  return augment > 0;\<close>\<close>

definition dfs :: "ford_fulkerson \<Rightarrow> nat \<Rightarrow> nat \<Rightarrow> (ford_fulkerson \<times> bool) option" where
  "dfs st u t =
     (case dfs_visit (n st) (st\<lparr>visited := replicate (n st) False\<rparr>) u t limits_inf of
        None \<Rightarrow> None
      | Some (st', a) \<Rightarrow> Some (st'\<lparr>augment := a\<rparr>, a > 0))"

text \<open>\<^verbatim>\<open>compute(s, t)\<close>: \<^verbatim>\<open>flow = 0; while (dfs(s, t)) { flow += augment; } return flow;\<close>
  The loop is \<open>ff_while\<close>; a run that does not return is \<open>None\<close>.\<close>

partial_function (option) ff_while ::
  "ford_fulkerson \<Rightarrow> nat \<Rightarrow> nat \<Rightarrow> int \<Rightarrow> (ford_fulkerson \<times> int) option" where
  "ff_while st s t flow =
     (case dfs st s t of
        None \<Rightarrow> None
      | Some (st', found) \<Rightarrow>
          if found then ff_while st' s t (flow + augment st') else Some (st', flow))"

declare ff_while.simps [code]

definition ff_compute :: "ford_fulkerson \<Rightarrow> nat \<Rightarrow> nat \<Rightarrow> (ford_fulkerson \<times> int) option" where
  "ff_compute st s t = ff_while st s t 0"

subsection \<open>Edmonds-Karp: breadth-first search, then augmentation along the predecessors\<close>

text \<open>The \<^verbatim>\<open>for (v : Gf[u])\<close> loop of \<^verbatim>\<open>bfs\<close>, on the state and the queue.\<close>

fun bfs_for :: "edmonds_karp \<Rightarrow> nat \<Rightarrow> nat list \<Rightarrow> nat list \<Rightarrow> edmonds_karp \<times> nat list" where
  "bfs_for st u [] Q = (st, Q)"
| "bfs_for st u (v # vs) Q =
     (if visited st ! v \<or> cf st u v = 0 then bfs_for st u vs Q
      else bfs_for (st\<lparr>visited := (visited st)[v := True], pi := (pi st)[v := Some u]\<rparr>)
             u vs (Q @ [v]))"

text \<open>\<^verbatim>\<open>while (!Q.empty()) { u = Q.front(); Q.pop(); for ... }\<close>\<close>

partial_function (option) bfs_while :: "edmonds_karp \<Rightarrow> nat list \<Rightarrow> edmonds_karp option" where
  "bfs_while st Q =
     (case Q of
        [] \<Rightarrow> Some st
      | u # Q' \<Rightarrow> (case bfs_for st u (Gf st ! u) Q' of (st', Q'') \<Rightarrow> bfs_while st' Q''))"

declare bfs_while.simps [code]

text \<open>\<^verbatim>\<open>bfs(s, t)\<close>: reset \<^verbatim>\<open>pi\<close> and \<^verbatim>\<open>visited\<close>, mark \<^verbatim>\<open>s\<close>, run the queue until it
  is empty, return \<^verbatim>\<open>visited[t]\<close>.\<close>

definition bfs :: "edmonds_karp \<Rightarrow> nat \<Rightarrow> nat \<Rightarrow> (edmonds_karp \<times> bool) option" where
  "bfs st s t =
     (let st0 = st\<lparr>pi := replicate (n st) None, visited := replicate (n st) False\<rparr>;
          st1 = st0\<lparr>pi := (pi st0)[s := None]\<rparr>;
          st2 = st1\<lparr>visited := (visited st1)[s := True]\<rparr>
      in case bfs_while st2 [s] of
           None \<Rightarrow> None
         | Some st' \<Rightarrow> Some (st', visited st' ! t))"

text \<open>The two loops of \<^verbatim>\<open>proc(s, t)\<close>, each walking \<^verbatim>\<open>v = pi[v]\<close> from \<^verbatim>\<open>t\<close> until
  \<^verbatim>\<open>v == s\<close>: the first takes the minimum residual capacity, the second adds it to the
  flow.  Reading \<^verbatim>\<open>pi[v] = nil\<close> and subscripting with it has no defined result
  (\<open>None\<close>), as has a walk that never reaches \<^verbatim>\<open>s\<close>.\<close>

partial_function (option) proc_min :: "edmonds_karp \<Rightarrow> nat \<Rightarrow> nat \<Rightarrow> int \<Rightarrow> int option" where
  "proc_min st s v cf_p =
     (if v \<noteq> s
      then (case pi st ! v of
              None \<Rightarrow> None
            | Some p \<Rightarrow> proc_min st s p (min cf_p (cf st p v)))
      else Some cf_p)"

declare proc_min.simps [code]

partial_function (option) proc_add ::
  "edmonds_karp \<Rightarrow> nat \<Rightarrow> nat \<Rightarrow> int \<Rightarrow> edmonds_karp option" where
  "proc_add st s v cf_p =
     (if v \<noteq> s
      then (case pi st ! v of
              None \<Rightarrow> None
            | Some p \<Rightarrow> proc_add (add_flow v p (- cf_p) (add_flow p v cf_p st)) s p cf_p)
      else Some st)"

declare proc_add.simps [code]

definition proc :: "edmonds_karp \<Rightarrow> nat \<Rightarrow> nat \<Rightarrow> (edmonds_karp \<times> int) option" where
  "proc st s t =
     (case proc_min st s t limits_inf of
        None \<Rightarrow> None
      | Some cf_p \<Rightarrow>
          (case proc_add st s t cf_p of
             None \<Rightarrow> None
           | Some st' \<Rightarrow> Some (st', cf_p)))"

text \<open>\<^verbatim>\<open>compute(s, t)\<close>: \<^verbatim>\<open>flow = 0; while (bfs(s, t)) { flow += proc(s, t); }
  return flow;\<close>\<close>

partial_function (option) ek_while ::
  "edmonds_karp \<Rightarrow> nat \<Rightarrow> nat \<Rightarrow> int \<Rightarrow> (edmonds_karp \<times> int) option" where
  "ek_while st s t flow =
     (case bfs st s t of
        None \<Rightarrow> None
      | Some (st', found) \<Rightarrow>
          if found
          then (case proc st' s t of
                  None \<Rightarrow> None
                | Some (st'', cf_p) \<Rightarrow> ek_while st'' s t (flow + cf_p))
          else Some (st', flow))"

declare ek_while.simps [code]

definition ek_compute :: "edmonds_karp \<Rightarrow> nat \<Rightarrow> nat \<Rightarrow> (edmonds_karp \<times> int) option" where
  "ek_compute st s t = ek_while st s t 0"

section \<open>Well-formed engines\<close>

text \<open>The matrices are \<open>n \<times> n\<close>, there are \<open>n\<close> adjacency lists, and every adjacency
  entry is a vertex.\<close>

definition wf_net :: "'a net_scheme \<Rightarrow> bool" where
  "wf_net st \<longleftrightarrow>
     length (c st) = n st \<and> list_all (\<lambda>r. length r = n st) (c st) \<and>
     length (f st) = n st \<and> list_all (\<lambda>r. length r = n st) (f st) \<and>
     length (Gf st) = n st \<and> list_all (list_all (\<lambda>v. v < n st)) (Gf st)"

lemma limits_inf_val: "limits_inf = 715827882"
  by (simp add: limits_inf_def)

lemma length_mat_set [simp]: "length (mat_set m u v x) = length m"
  by (simp add: mat_set_def)

lemma mat_set_nth:
  assumes "x < length m"
  shows "mat_set m u v a ! x ! y =
           (if x = u \<and> y = v \<and> v < length (m ! u) then a else m ! x ! y)"
proof (cases "x = u")
  case True
  show ?thesis
  proof (cases "v < length (m ! u)")
    case True
    with \<open>x = u\<close> assms show ?thesis by (simp add: mat_set_def nth_list_update)
  next
    case False
    then have "(m ! u)[v := a] = m ! u" by (simp add: list_update_beyond)
    with False \<open>x = u\<close> assms show ?thesis by (simp add: mat_set_def)
  qed
next
  case False
  with assms show ?thesis by (simp add: mat_set_def)
qed

lemma mat_set_row_length:
  "x < length m \<Longrightarrow> length (mat_set m u v a ! x) = length (m ! x)"
  by (cases "x = u") (auto simp: mat_set_def nth_list_update)

lemma list_all_update:
  "list_all P xs \<Longrightarrow> P y \<Longrightarrow> list_all P (xs[i := y])"
  using set_update_subset_insert[of xs i y] by (auto simp: list_all_iff)

lemma list_all_nthD: "list_all P xs \<Longrightarrow> i < length xs \<Longrightarrow> P (xs ! i)"
  by (simp add: list_all_length)

lemma rows_mat_set:
  assumes "list_all (\<lambda>r. length r = k) m"
  shows "list_all (\<lambda>r. length r = k) (mat_set m u v a)"
proof (cases "u < length m")
  case True
  then have "length (m ! u) = k" using assms by (simp add: list_all_length)
  then have "length ((m ! u)[v := a]) = k" by simp
  with assms show ?thesis unfolding mat_set_def by (rule list_all_update)
next
  case False
  then show ?thesis using assms by (simp add: mat_set_def list_update_beyond)
qed

lemma wf_net_len:
  "wf_net st \<Longrightarrow> length (c st) = n st"
  "wf_net st \<Longrightarrow> length (f st) = n st"
  "wf_net st \<Longrightarrow> length (Gf st) = n st"
  unfolding wf_net_def by simp_all

lemma wf_net_row:
  "wf_net st \<Longrightarrow> i < n st \<Longrightarrow> length (c st ! i) = n st"
  "wf_net st \<Longrightarrow> i < n st \<Longrightarrow> length (f st ! i) = n st"
  unfolding wf_net_def by (simp_all add: list_all_length)

lemma wf_net_adj:
  "wf_net st \<Longrightarrow> i < n st \<Longrightarrow> v \<in> set (Gf st ! i) \<Longrightarrow> v < n st"
  unfolding wf_net_def by (auto simp: list_all_length in_set_conv_nth)

subsection \<open>Construction: what \<open>add_edge\<close> does with any arguments\<close>

lemma add_edge_sel [simp]:
  "n (add_edge u v cap st) = n st" "visited (add_edge u v cap st) = visited st"
  "hist (add_edge u v cap st) = hist st"
  "c (add_edge u v cap st) = mat_set (mat_set (c st) u v cap) v u 0"
  "f (add_edge u v cap st) = mat_set (mat_set (f st) u v 0) v u 0"
  "Gf (add_edge u v cap st) =
     ((Gf st)[u := Gf st ! u @ [v]])[v := (Gf st)[u := Gf st ! u @ [v]] ! v @ [u]]"
  by (simp_all add: add_edge_def Let_def)

lemma mat_set2_nth:
  assumes "u < length m" "v < length m" "x < length m"
    "v < length (m ! u)" "u < length (m ! v)"
  shows "mat_set (mat_set m u v a) v u b ! x ! y =
           (if x = v \<and> y = u then b else if x = u \<and> y = v then a else m ! x ! y)"
proof -
  have "u < length (mat_set m u v a ! v)"
    using assms by (simp add: mat_set_row_length)
  then have 1: "mat_set (mat_set m u v a) v u b ! x ! y =
      (if x = v \<and> y = u then b else mat_set m u v a ! x ! y)"
    using assms by (simp add: mat_set_nth)
  have 2: "mat_set m u v a ! x ! y = (if x = u \<and> y = v then a else m ! x ! y)"
    using assms by (simp add: mat_set_nth)
  show ?thesis unfolding 1 2 ..
qed

lemma add_edge_c_nth:
  assumes "wf_net st" "u < n st" "v < n st" "x < n st"
  shows "c (add_edge u v cap st) ! x ! y =
           (if x = v \<and> y = u then 0 else if x = u \<and> y = v then cap else c st ! x ! y)"
  using assms by (simp add: mat_set2_nth wf_net_len wf_net_row)

lemma add_edge_f_nth:
  assumes "wf_net st" "u < n st" "v < n st" "x < n st"
  shows "f (add_edge u v cap st) ! x ! y =
           (if x = v \<and> y = u then 0 else if x = u \<and> y = v then 0 else f st ! x ! y)"
  using assms by (simp add: mat_set2_nth wf_net_len wf_net_row)

lemma add_edge_Gf_nth:
  assumes "wf_net st" "u < n st" "v < n st" "x < n st"
  shows "Gf (add_edge u v cap st) ! x =
           Gf st ! x @ (if x = u then [v] else []) @ (if x = v then [u] else [])"
  using assms by (simp add: nth_list_update wf_net_len)

lemma wf_add_edge:
  assumes "wf_net st" "u < n st" "v < n st"
  shows "wf_net (add_edge u v cap st)"
proof -
  let ?P = "list_all (\<lambda>x. x < n st)"
  let ?G1 = "(Gf st)[u := Gf st ! u @ [v]]"
  have G0: "list_all ?P (Gf st)" and len: "length (Gf st) = n st"
    using assms(1) by (simp_all add: wf_net_def)
  have "?P (Gf st ! u)" using G0 len assms(2) by (simp add: list_all_length)
  then have "?P (Gf st ! u @ [v])" using assms(3) by simp
  with G0 have G1: "list_all ?P ?G1" by (rule list_all_update)
  have "?P (?G1 ! v)" using G1 len assms(3) by (simp add: list_all_length)
  then have "?P (?G1 ! v @ [u])" using assms(2) by simp
  with G1 have G2: "list_all ?P (?G1[v := ?G1 ! v @ [u]])" by (rule list_all_update)
  have "list_all (\<lambda>r. length r = n st) (c st)" "list_all (\<lambda>r. length r = n st) (f st)"
    using assms(1) by (simp_all add: wf_net_def)
  then have "list_all (\<lambda>r. length r = n st) (c (add_edge u v cap st))"
    "list_all (\<lambda>r. length r = n st) (f (add_edge u v cap st))"
    by (simp_all add: rows_mat_set)
  then show ?thesis
    using G2 wf_net_len[OF assms(1)] unfolding wf_net_def by simp
qed

lemma wf_ford_fulkerson_init: "wf_net (ford_fulkerson_init k)"
  by (simp add: wf_net_def ford_fulkerson_init_def list_all_length)

lemma wf_edmonds_karp_init: "wf_net (edmonds_karp_init k)"
  by (simp add: wf_net_def edmonds_karp_init_def list_all_length)

text \<open>
  \<^bold>\<open>C8\<close> (as stated, refuted).  \<open>add_edge\<close> has no check and no way to fail: it is a
  \<^verbatim>\<open>void\<close> function of six assignments.  A negative capacity is stored as it is; a
  self-loop is stored with capacity zero (the second assignment to \<^verbatim>\<open>c\<close> overwrites the
  first) and the vertex is pushed twice onto its own adjacency list; an edge \<open>(1, 0)\<close>
  added after \<open>(0, 1)\<close> sets the capacity of \<open>(0, 1)\<close> to zero.
\<close>

theorem add_edge_accepts_invalid_arguments:
  "c (add_edge 0 1 (- 5) (ford_fulkerson_init 2)) = [[0, - 5], [0, 0]] \<and>
   c (add_edge 1 1 7 (ford_fulkerson_init 2)) = [[0, 0], [0, 0]] \<and>
   Gf (add_edge 1 1 7 (ford_fulkerson_init 2)) = [[], [1, 1]] \<and>
   c (add_edge 1 0 3 (add_edge 0 1 5 (ford_fulkerson_init 2))) = [[0, 0], [3, 0]] \<and>
   c (add_edge 1 0 3 (add_edge 0 1 5 (edmonds_karp_init 2))) = [[0, 0], [3, 0]]"
  by code_simp

text \<open>
  \<^bold>\<open>C8\<close> (amended).  For vertex indices in range, \<open>add_edge u v cap\<close> succeeds whatever
  the capacity, whether or not \<open>u = v\<close>, and whatever edges were added before.  It leaves
  a well-formed engine in which \<open>c[v][u] = 0\<close>, \<open>c[u][v] = cap\<close> (unless \<open>u = v\<close>),
  both flows are zero, \<open>v\<close> is pushed onto \<open>Gf[u]\<close> and then \<open>u\<close> onto \<open>Gf[v]\<close>, and
  everything else is as before.
\<close>

theorem add_edge_unchecked:
  assumes "wf_net st" "u < n st" "v < n st"
  shows "wf_net (add_edge u v cap st) \<and> n (add_edge u v cap st) = n st \<and>
    (\<forall>x < n st. \<forall>y < n st.
       c (add_edge u v cap st) ! x ! y =
         (if x = v \<and> y = u then 0 else if x = u \<and> y = v then cap else c st ! x ! y) \<and>
       f (add_edge u v cap st) ! x ! y =
         (if x = v \<and> y = u then 0 else if x = u \<and> y = v then 0 else f st ! x ! y)) \<and>
    (\<forall>x < n st.
       Gf (add_edge u v cap st) ! x =
         Gf st ! x @ (if x = u then [v] else []) @ (if x = v then [u] else []))"
proof (intro conjI allI impI)
  show "wf_net (add_edge u v cap st)" using assms by (rule wf_add_edge)
  show "n (add_edge u v cap st) = n st" by simp
next
  fix x y assume "x < n st" "y < n st"
  with assms show "c (add_edge u v cap st) ! x ! y =
         (if x = v \<and> y = u then 0 else if x = u \<and> y = v then cap else c st ! x ! y)"
    by (simp only: add_edge_c_nth)
  from assms \<open>x < n st\<close> show "f (add_edge u v cap st) ! x ! y =
         (if x = v \<and> y = u then 0 else if x = u \<and> y = v then 0 else f st ! x ! y)"
    by (simp only: add_edge_f_nth)
next
  fix x assume "x < n st"
  with assms show "Gf (add_edge u v cap st) ! x =
         Gf st ! x @ (if x = u then [v] else []) @ (if x = v then [u] else [])"
    by (simp only: add_edge_Gf_nth)
qed

theorem add_edge_unchecked_witness:
  "wf_net (add_edge 1 0 (- 3) (add_edge 0 1 5 (ford_fulkerson_init 2))) \<and>
   c (add_edge 1 0 (- 3) (add_edge 0 1 5 (ford_fulkerson_init 2))) ! 1 ! 0 = - 3 \<and>
   c (add_edge 1 0 (- 3) (add_edge 0 1 5 (ford_fulkerson_init 2))) ! 0 ! 1 = 0"
proof -
  let ?st = "add_edge 0 1 5 (ford_fulkerson_init 2)"
  have w: "wf_net ?st"
    by (rule wf_add_edge[OF wf_ford_fulkerson_init]) (simp_all add: ford_fulkerson_init_def)
  have n: "n ?st = 2" by (simp add: ford_fulkerson_init_def)
  have "(1::nat) < n ?st" "(0::nat) < n ?st" unfolding n by simp_all
  from add_edge_unchecked[OF w this, of "- 3"] show ?thesis
    unfolding n by simp
qed

section \<open>What the searches leave unchanged\<close>

lemma add_flow_sel [simp]:
  "c (add_flow u v d st) = c st" "Gf (add_flow u v d st) = Gf st"
  "n (add_flow u v d st) = n st" "visited (add_flow u v d st) = visited st"
  "f (add_flow u v d st) = mat_set (f st) u v (f st ! u ! v + d)"
  "hist (add_flow u v d st) = hist st @ [mat_set (f st) u v (f st ! u ! v + d)]"
  by (simp_all add: add_flow_def Let_def)

lemma add_flow_more [simp]:
  "augment (add_flow u v d st) = augment st" "pi (add_flow u v d st2) = pi st2"
  by (simp_all add: add_flow_def Let_def)

text \<open>The part of the state a call of \<open>dfs_visit\<close> never touches, and the part it leaves
  alone when it does not return a positive value.\<close>

definition dfs_keeps :: "ford_fulkerson \<Rightarrow> ford_fulkerson \<Rightarrow> int \<Rightarrow> bool" where
  "dfs_keeps st st' r \<longleftrightarrow>
     c st' = c st \<and> Gf st' = Gf st \<and> n st' = n st \<and> augment st' = augment st \<and>
     length (visited st') = length (visited st) \<and>
     (\<not> 0 < r \<longrightarrow> f st' = f st \<and> hist st' = hist st)"

lemma dfs_keeps_refl: "dfs_keeps st st r"
  by (simp add: dfs_keeps_def)

lemma dfs_keeps_visited: "dfs_keeps (st\<lparr>visited := vs\<rparr>) st' r \<Longrightarrow> length vs = length (visited st) \<Longrightarrow> dfs_keeps st st' r"
  by (simp add: dfs_keeps_def)

lemma dfs_keeps_trans:
  "dfs_keeps st st1 r1 \<Longrightarrow> \<not> 0 < r1 \<Longrightarrow> dfs_keeps st1 st' r \<Longrightarrow> dfs_keeps st st' r"
  by (simp add: dfs_keeps_def)

lemma dfs_keeps_push:
  "dfs_keeps st st1 r \<Longrightarrow> 0 < r \<Longrightarrow>
   dfs_keeps st (add_flow v u (- r) (add_flow u v r st1)) r"
  by (simp add: dfs_keeps_def)

lemma dfs_frame:
  "dfs_visit k st u t fl = Some (st', r) \<Longrightarrow> dfs_keeps st st' r"
  "dfs_for k st u vs t fl = Some (st', r) \<Longrightarrow> dfs_keeps st st' r"
proof (induction k st u t fl and k st u vs t fl arbitrary: st' r and st' r
       rule: dfs_visit_dfs_for.induct)
  case (1 st u t fl)
  then show ?case by simp
next
  case (2 k st u t fl)
  let ?st1 = "st\<lparr>visited := (visited st)[u := True]\<rparr>"
  show ?case
  proof (cases "u = t")
    case True
    with "2.prems" have "st' = ?st1" by simp
    then show ?thesis by (simp add: dfs_keeps_def)
  next
    case False
    with "2.prems" have "dfs_for k ?st1 u (Gf ?st1 ! u) t fl = Some (st', r)" by simp
    from "2.IH"[OF refl False this] show ?thesis
      by (rule dfs_keeps_visited) simp
  qed
next
  case (3 k st u t fl)
  then show ?case by (simp add: dfs_keeps_def)
next
  case (4 k st u v vs t fl)
  show ?case
  proof (cases "visited st ! v \<or> cf st u v = 0")
    case True
    with "4.prems" have "dfs_for k st u vs t fl = Some (st', r)" by simp
    from "4.IH"(1)[OF True this] show ?thesis .
  next
    case False
    with "4.prems" obtain st1 r1 where
      v: "dfs_visit k st v t (min fl (cf st u v)) = Some (st1, r1)"
      by (auto split: option.splits)
    from "4.IH"(2)[OF False v] have k1: "dfs_keeps st st1 r1" .
    show ?thesis
    proof (cases "0 < r1")
      case True
      with "4.prems" False v
      have "st' = add_flow v u (- r1) (add_flow u v r1 st1)" "r = r1" by auto
      with k1 True show ?thesis by (simp add: dfs_keeps_push)
    next
      case r1: False
      with "4.prems" False v have "dfs_for k st1 u vs t fl = Some (st', r)" by simp
      from "4.IH"(3)[OF False v refl r1 this] have "dfs_keeps st1 st' r" .
      with k1 r1 show ?thesis by (rule dfs_keeps_trans)
    qed
  qed
qed

lemma dfs_keeps:
  assumes "dfs st u t = Some (st', b)"
  shows "c st' = c st \<and> Gf st' = Gf st \<and> n st' = n st \<and>
         (\<not> b \<longrightarrow> f st' = f st \<and> hist st' = hist st)"
proof -
  from assms obtain st1 r where
    1: "dfs_visit (n st) (st\<lparr>visited := replicate (n st) False\<rparr>) u t limits_inf = Some (st1, r)"
    and 2: "st' = st1\<lparr>augment := r\<rparr>" "b = (0 < r)"
    by (auto simp: dfs_def split: option.splits)
  from dfs_frame(1)[OF 1] 2 show ?thesis by (simp add: dfs_keeps_def)
qed

text \<open>The network part of the state is the same.\<close>

definition net_same :: "'a net_scheme \<Rightarrow> 'a net_scheme \<Rightarrow> bool" where
  "net_same st st' \<longleftrightarrow>
     c st' = c st \<and> f st' = f st \<and> Gf st' = Gf st \<and> n st' = n st \<and> hist st' = hist st"

lemma net_same_refl: "net_same st st"
  by (simp add: net_same_def)

lemma net_same_trans: "net_same st st1 \<Longrightarrow> net_same st1 st' \<Longrightarrow> net_same st st'"
  by (simp add: net_same_def)

lemma bfs_for_keeps: "bfs_for st u vs Q = (st', Q') \<Longrightarrow> net_same st st'"
proof (induction vs arbitrary: st Q)
  case Nil
  then show ?case by (simp add: net_same_def)
next
  case (Cons v vs)
  show ?case
  proof (cases "visited st ! v \<or> cf st u v = 0")
    case True
    with Cons.prems have "bfs_for st u vs Q = (st', Q')" by simp
    from Cons.IH[OF this] show ?thesis .
  next
    case False
    with Cons.prems
    have "bfs_for (st\<lparr>visited := (visited st)[v := True], pi := (pi st)[v := Some u]\<rparr>) u vs
            (Q @ [v]) = (st', Q')" by simp
    from Cons.IH[OF this] show ?thesis by (simp add: net_same_def)
  qed
qed

lemma bfs_while_keeps:
  assumes "bfs_while st Q = Some st'"
  shows "net_same st st'"
proof (rule bfs_while.raw_induct[where P = "\<lambda>st Q st'. net_same st st'"])
  show "bfs_while st Q = Some st'" by fact
next
  fix bw and st :: edmonds_karp and Q st'
  assume IH: "\<And>st Q st'. bw st Q = Some st' \<Longrightarrow> net_same st st'"
    and eq: "(case Q of [] \<Rightarrow> Some st
              | u # Q' \<Rightarrow> (case bfs_for st u (Gf st ! u) Q' of (st', Q'') \<Rightarrow> bw st' Q'')) = Some st'"
  show "net_same st st'"
  proof (cases Q)
    case Nil
    with eq show ?thesis by (simp add: net_same_def)
  next
    case (Cons u Q')
    obtain st1 Q1 where b: "bfs_for st u (Gf st ! u) Q' = (st1, Q1)"
      by (cases "bfs_for st u (Gf st ! u) Q'")
    with eq Cons have "bw st1 Q1 = Some st'" by simp
    from bfs_for_keeps[OF b] IH[OF this] show ?thesis by (rule net_same_trans)
  qed
qed

lemma bfs_keeps:
  assumes "bfs st s t = Some (st', b)"
  shows "net_same st st'"
proof -
  let ?st2 = "st\<lparr>pi := (replicate (n st) None)[s := None],
                 visited := (replicate (n st) False)[s := True]\<rparr>"
  from assms have "bfs_while ?st2 [s] = Some st'"
    by (auto simp: bfs_def Let_def split: option.splits)
  from bfs_while_keeps[OF this] show ?thesis by (simp add: net_same_def)
qed

section \<open>Augmentation along a path\<close>

text \<open>Both engines augment one residual edge \<open>(x, y)\<close> with the two assignments
  \<^verbatim>\<open>f[x][y] += d; f[y][x] -= d;\<close>.\<close>

definition push :: "int \<Rightarrow> nat \<Rightarrow> nat \<Rightarrow> 'a net_scheme \<Rightarrow> 'a net_scheme" where
  "push d x y st = add_flow y x (- d) (add_flow x y d st)"

text \<open>They do so for the edges of a path from the last edge to the first: \<open>dfs_visit\<close>
  while its recursion unwinds, \<open>proc\<close> while it walks the predecessors back from the sink.\<close>

fun aug_path :: "int \<Rightarrow> nat list \<Rightarrow> 'a net_scheme \<Rightarrow> 'a net_scheme" where
  "aug_path d (x # y # p) st = push d x y (aug_path d (y # p) st)"
| "aug_path d [x] st = st"
| "aug_path d [] st = st"

text \<open>\<open>d\<close> is at most the residual capacity of every edge of the path.\<close>

fun path_le :: "'a net_scheme \<Rightarrow> int \<Rightarrow> nat list \<Rightarrow> bool" where
  "path_le st d (x # y # p) = (d \<le> cf st x y \<and> path_le st d (y # p))"
| "path_le st d [x] = True"
| "path_le st d [] = True"

text \<open>Skew symmetry and the capacity bound of the flow matrix, and the bounds that every
  matrix of the history obeys: \<open>- c[v][u] \<le> m[u][v] \<le> c[u][v]\<close>.\<close>

definition skew :: "'a net_scheme \<Rightarrow> bool" where
  "skew st \<longleftrightarrow> (\<forall>u < n st. \<forall>v < n st. f st ! u ! v = - (f st ! v ! u))"

definition capb :: "'a net_scheme \<Rightarrow> bool" where
  "capb st \<longleftrightarrow> (\<forall>u < n st. \<forall>v < n st. f st ! u ! v \<le> c st ! u ! v)"

definition mat_ok :: "'a net_scheme \<Rightarrow> matrix_t \<Rightarrow> bool" where
  "mat_ok st m \<longleftrightarrow>
     (\<forall>u < n st. \<forall>v < n st. - (c st ! v ! u) \<le> m ! u ! v \<and> m ! u ! v \<le> c st ! u ! v)"

definition hist_ok :: "'a net_scheme \<Rightarrow> bool" where
  "hist_ok st \<longleftrightarrow> (\<forall>m \<in> set (hist st). mat_ok st m)"

definition flow_inv :: "'a net_scheme \<Rightarrow> bool" where
  "flow_inv st \<longleftrightarrow> wf_net st \<and> skew st \<and> capb st \<and> hist_ok st"

text \<open>Row sums: \<open>net_out st u\<close> is \<open>\<Sum>v. f[u][v]\<close>, \<open>net_in st u\<close> is \<open>\<Sum>v. f[v][u]\<close>.\<close>

definition net_out :: "'a net_scheme \<Rightarrow> nat \<Rightarrow> int" where
  "net_out st u = sum_list (f st ! u)"

definition net_in :: "'a net_scheme \<Rightarrow> nat \<Rightarrow> int" where
  "net_in st u = sum_list (map (\<lambda>r. r ! u) (f st))"

lemma net_out_sum:
  "wf_net st \<Longrightarrow> u < n st \<Longrightarrow> net_out st u = (\<Sum>v < n st. f st ! u ! v)"
  by (simp add: net_out_def sum_list_sum_nth wf_net_row atLeast0LessThan)

lemma net_in_sum:
  "wf_net st \<Longrightarrow> net_in st u = (\<Sum>v < n st. f st ! v ! u)"
  by (simp add: net_in_def sum_list_sum_nth wf_net_len atLeast0LessThan)

lemma skewD: "skew st \<Longrightarrow> u < n st \<Longrightarrow> v < n st \<Longrightarrow> f st ! u ! v = - (f st ! v ! u)"
  unfolding skew_def by blast

lemma capbD: "capb st \<Longrightarrow> u < n st \<Longrightarrow> v < n st \<Longrightarrow> f st ! u ! v \<le> c st ! u ! v"
  unfolding capb_def by blast

lemma skew_net_in:
  assumes "wf_net st" "skew st" "u < n st"
  shows "net_in st u = - net_out st u"
proof -
  have "(\<Sum>v < n st. f st ! v ! u) = (\<Sum>v < n st. - (f st ! u ! v))"
  proof (rule sum.cong[OF refl])
    fix v assume "v \<in> {..<n st}"
    then have "v < n st" by simp
    from skewD[OF assms(2) this assms(3)] show "f st ! v ! u = - (f st ! u ! v)" .
  qed
  then show ?thesis using assms(1,3) by (simp add: net_in_sum net_out_sum sum_negf)
qed

subsection \<open>One edge\<close>

lemma wf_add_flow: "wf_net st \<Longrightarrow> wf_net (add_flow u v d st)"
  by (simp add: wf_net_def rows_mat_set)

lemma push_sel [simp]:
  "c (push d x y st) = c st" "Gf (push d x y st) = Gf st" "n (push d x y st) = n st"
  "visited (push d x y st) = visited st"
  by (simp_all add: push_def)

lemma push_more [simp]:
  "augment (push d x y st) = augment st" "pi (push d x y st2) = pi st2"
  by (simp_all add: push_def)

lemma wf_push: "wf_net st \<Longrightarrow> wf_net (push d x y st)"
  by (simp add: push_def wf_add_flow)

lemma add_flow_f:
  assumes "wf_net st" "u < n st" "v < n st" "a < n st"
  shows "f (add_flow u v d st) ! a ! b = f st ! a ! b + (if a = u \<and> b = v then d else 0)"
  using assms by (simp add: mat_set_nth wf_net_len wf_net_row)

lemma push_f:
  assumes "wf_net st" "x < n st" "y < n st" "a < n st"
  shows "f (push d x y st) ! a ! b =
           f st ! a ! b + (if a = x \<and> b = y then d else 0) - (if a = y \<and> b = x then d else 0)"
proof -
  have "wf_net (add_flow x y d st)" using assms(1) by (rule wf_add_flow)
  then have "f (push d x y st) ! a ! b =
      f (add_flow x y d st) ! a ! b + (if a = y \<and> b = x then - d else 0)"
    unfolding push_def using assms by (intro add_flow_f) simp_all
  also have "f (add_flow x y d st) ! a ! b = f st ! a ! b + (if a = x \<and> b = y then d else 0)"
    using assms by (rule add_flow_f)
  finally show ?thesis by simp
qed

lemma push_hist:
  "hist (push d x y st) = hist st @ [f (add_flow x y d st), f (push d x y st)]"
  by (simp add: push_def)

lemma push_net_out:
  assumes "wf_net st" "x < n st" "y < n st" "a < n st"
  shows "net_out (push d x y st) a =
           net_out st a + (if a = x then d else 0) - (if a = y then d else 0)"
proof -
  have "net_out (push d x y st) a = (\<Sum>b < n st. f (push d x y st) ! a ! b)"
    using assms wf_push[OF assms(1), of d x y] net_out_sum[of "push d x y st" a] by simp
  also have "\<dots> = (\<Sum>b < n st. f st ! a ! b + (if a = x \<and> b = y then d else 0)
                        - (if a = y \<and> b = x then d else 0))"
    using assms by (simp add: push_f)
  also have "\<dots> = (\<Sum>b < n st. f st ! a ! b) + (\<Sum>b < n st. if a = x \<and> b = y then d else 0)
                   - (\<Sum>b < n st. if a = y \<and> b = x then d else 0)"
    by (simp add: sum.distrib sum_subtractf)
  also have "(\<Sum>b < n st. if a = x \<and> b = y then d else 0) = (if a = x then d else 0)"
    using assms(3) by (cases "a = x") (simp_all add: sum.delta)
  also have "(\<Sum>b < n st. if a = y \<and> b = x then d else 0) = (if a = y then d else 0)"
    using assms(2) by (cases "a = y") (simp_all add: sum.delta)
  finally show ?thesis using assms by (simp add: net_out_sum)
qed

lemma skew_update:
  "(A::int) = - B \<Longrightarrow>
   A + (if P then d else 0) - (if Q then d else 0) =
   - (B + (if Q then d else 0) - (if P then d else 0))"
  by simp

lemma skew_push:
  assumes "wf_net st" "skew st" "x < n st" "y < n st"
  shows "skew (push d x y st)"
  unfolding skew_def
proof (intro allI impI)
  fix u v assume "u < n (push d x y st)" "v < n (push d x y st)"
  then have uv: "u < n st" "v < n st" by simp_all
  have 1: "f (push d x y st) ! u ! v =
      f st ! u ! v + (if u = x \<and> v = y then d else 0) - (if u = y \<and> v = x then d else 0)"
    using assms(1,3,4) uv(1) by (rule push_f)
  have "f (push d x y st) ! v ! u =
      f st ! v ! u + (if v = x \<and> u = y then d else 0) - (if v = y \<and> u = x then d else 0)"
    using assms(1,3,4) uv(2) by (rule push_f)
  also have "(v = x \<and> u = y) = (u = y \<and> v = x)" by blast
  also have "(v = y \<and> u = x) = (u = x \<and> v = y)" by blast
  finally have 2: "f (push d x y st) ! v ! u =
      f st ! v ! u + (if u = y \<and> v = x then d else 0) - (if u = x \<and> v = y then d else 0)" .
  show "f (push d x y st) ! u ! v = - (f (push d x y st) ! v ! u)"
    unfolding 1 2 using skewD[OF assms(2) uv] by (rule skew_update)
qed

lemma flow_mat_ok:
  assumes "skew st" "capb st"
  shows "mat_ok st (f st)"
  unfolding mat_ok_def
proof (intro allI impI conjI)
  fix u v assume uv: "u < n st" "v < n st"
  show "f st ! u ! v \<le> c st ! u ! v" using capbD[OF assms(2) uv] .
  show "- (c st ! v ! u) \<le> f st ! u ! v"
    using capbD[OF assms(2) uv(2,1)] skewD[OF assms(1) uv] by linarith
qed

lemma capb_push:
  assumes "wf_net st" "capb st" "x < n st" "y < n st" "0 \<le> d" "d \<le> cf st x y"
  shows "capb (push d x y st)"
  unfolding capb_def
proof (intro allI impI)
  fix u v assume "u < n (push d x y st)" "v < n (push d x y st)"
  then have uv: "u < n st" "v < n st" by simp_all
  have 1: "f (push d x y st) ! u ! v =
      f st ! u ! v + (if u = x \<and> v = y then d else 0) - (if u = y \<and> v = x then d else 0)"
    using assms(1,3,4) uv(1) by (rule push_f)
  have 2: "f st ! u ! v \<le> c st ! u ! v" using capbD[OF assms(2) uv] .
  have 3: "f st ! u ! v + (if u = x \<and> v = y then d else 0) \<le> c st ! u ! v"
  proof (cases "u = x \<and> v = y")
    case True
    with assms(6) show ?thesis by (simp add: cf_def)
  next
    case False
    with 2 show ?thesis by auto
  qed
  have 4: "0 \<le> (if u = y \<and> v = x then d else 0)" using assms(5) by simp
  have "f (push d x y st) ! u ! v \<le> c st ! u ! v"
    unfolding 1 using 3 4 by linarith
  then show "f (push d x y st) ! u ! v \<le> c (push d x y st) ! u ! v" by simp
qed

lemma mat_ok_add_flow:
  assumes "wf_net st" "skew st" "capb st" "x < n st" "y < n st" "0 \<le> d" "d \<le> cf st x y"
  shows "mat_ok st (f (add_flow x y d st))"
  unfolding mat_ok_def
proof (intro allI impI conjI)
  fix u v assume uv: "u < n st" "v < n st"
  have 1: "f (add_flow x y d st) ! u ! v = f st ! u ! v + (if u = x \<and> v = y then d else 0)"
    using assms(1,4,5) uv(1) by (rule add_flow_f)
  have 2: "f st ! u ! v \<le> c st ! u ! v" using capbD[OF assms(3) uv] .
  show "f (add_flow x y d st) ! u ! v \<le> c st ! u ! v"
    unfolding 1
  proof (cases "u = x \<and> v = y")
    case True
    with assms(7) show "f st ! u ! v + (if u = x \<and> v = y then d else 0) \<le> c st ! u ! v"
      by (simp add: cf_def)
  next
    case False
    with 2 show "f st ! u ! v + (if u = x \<and> v = y then d else 0) \<le> c st ! u ! v" by auto
  qed
  have 4: "- (c st ! v ! u) \<le> f st ! u ! v"
    using capbD[OF assms(3) uv(2,1)] skewD[OF assms(2) uv] by linarith
  have 5: "0 \<le> (if u = x \<and> v = y then d else 0)" using assms(6) by simp
  show "- (c st ! v ! u) \<le> f (add_flow x y d st) ! u ! v"
    unfolding 1 using 4 5 by linarith
qed

lemma mat_ok_push: "mat_ok (push d x y st) m = mat_ok st m"
  by (simp add: mat_ok_def)

lemma flow_inv_push:
  assumes "flow_inv st" "x < n st" "y < n st" "0 \<le> d" "d \<le> cf st x y"
  shows "flow_inv (push d x y st)"
proof -
  from assms(1) have w: "wf_net st" and s: "skew st" and cb: "capb st" and h: "hist_ok st"
    by (simp_all add: flow_inv_def)
  have w': "wf_net (push d x y st)" using w by (rule wf_push)
  have s': "skew (push d x y st)" using w s assms(2,3) by (rule skew_push)
  have c': "capb (push d x y st)" using w cb assms(2-5) by (rule capb_push)
  have m1: "mat_ok st (f (add_flow x y d st))" using w s cb assms(2-5) by (rule mat_ok_add_flow)
  have m2: "mat_ok st (f (push d x y st))"
    using flow_mat_ok[OF s' c'] by (simp only: mat_ok_push)
  have "hist_ok (push d x y st)"
    unfolding hist_ok_def push_hist mat_ok_push using h m1 m2 by (simp add: hist_ok_def)
  with w' s' c' show ?thesis by (simp add: flow_inv_def)
qed

subsection \<open>A whole path\<close>

lemma aug_path_sel [simp]:
  "c (aug_path d p st) = c st" "Gf (aug_path d p st) = Gf st" "n (aug_path d p st) = n st"
  "visited (aug_path d p st) = visited st"
  by (induction d p st rule: aug_path.induct) simp_all

lemma aug_path_augment [simp]: "augment (aug_path d p st) = augment st"
  by (induction d p st rule: aug_path.induct) simp_all

lemma aug_path_pi [simp]: "pi (aug_path d p st) = pi st"
  by (induction d p st rule: aug_path.induct) simp_all

lemma wf_aug_path: "wf_net st \<Longrightarrow> wf_net (aug_path d p st)"
  by (induction d p st rule: aug_path.induct) (simp_all add: wf_push)

lemma aug_path_frame:
  assumes "wf_net st" "\<forall>x \<in> set p. x < n st" "a < n st" "a \<notin> set p \<or> b \<notin> set p"
  shows "f (aug_path d p st) ! a ! b = f st ! a ! b"
  using assms
proof (induction d p st rule: aug_path.induct)
  case (1 d x y p st)
  have "f (push d x y (aug_path d (y # p) st)) ! a ! b =
        f (aug_path d (y # p) st) ! a ! b + (if a = x \<and> b = y then d else 0)
          - (if a = y \<and> b = x then d else 0)"
    using 1(2-4) wf_aug_path[OF 1(2), of d "y # p"] by (intro push_f) simp_all
  also have "f (aug_path d (y # p) st) ! a ! b = f st ! a ! b"
    using 1 by auto
  finally have "f (aug_path d (x # y # p) st) ! a ! b =
      f st ! a ! b + (if a = x \<and> b = y then d else 0) - (if a = y \<and> b = x then d else 0)"
    by simp
  moreover have "\<not> (a = x \<and> b = y)" "\<not> (a = y \<and> b = x)" using 1(5) by auto
  ultimately show ?case by simp
qed simp_all

lemma aug_path_cf:
  assumes "wf_net st" "\<forall>x \<in> set p. x < n st" "a < n st" "a \<notin> set p \<or> b \<notin> set p"
  shows "cf (aug_path d p st) a b = cf st a b"
  using aug_path_frame[OF assms] by (simp add: cf_def)

lemma skew_aug_path:
  assumes "wf_net st" "skew st" "\<forall>x \<in> set p. x < n st"
  shows "skew (aug_path d p st)"
  using assms
proof (induction d p st rule: aug_path.induct)
  case (1 d x y p st)
  then have "skew (aug_path d (y # p) st)" by simp
  with wf_aug_path[OF 1(2)] show ?case using 1(4) by (simp add: skew_push)
qed simp_all

lemma aug_path_net_out:
  assumes "wf_net st" "\<forall>x \<in> set p. x < n st" "p \<noteq> []" "a < n st"
  shows "net_out (aug_path d p st) a =
           net_out st a + (if a = hd p then d else 0) - (if a = last p then d else 0)"
  using assms
proof (induction d p st rule: aug_path.induct)
  case (1 d x y p st)
  have "net_out (push d x y (aug_path d (y # p) st)) a =
        net_out (aug_path d (y # p) st) a + (if a = x then d else 0) - (if a = y then d else 0)"
    using 1(2-5) wf_aug_path[OF 1(2), of d "y # p"] by (intro push_net_out) simp_all
  also have "net_out (aug_path d (y # p) st) a =
        net_out st a + (if a = y then d else 0) - (if a = last (y # p) then d else 0)"
    using 1 by simp
  finally show ?case by simp
qed simp_all

lemma flow_inv_aug_path:
  assumes "flow_inv st" "distinct p" "\<forall>x \<in> set p. x < n st" "0 \<le> d" "path_le st d p"
  shows "flow_inv (aug_path d p st)"
  using assms
proof (induction d p st rule: aug_path.induct)
  case (1 d x y p st)
  from 1(2) have w: "wf_net st" by (simp add: flow_inv_def)
  have IH: "flow_inv (aug_path d (y # p) st)" using 1 by simp
  have "cf (aug_path d (y # p) st) x y = cf st x y"
    using w 1(3,4) by (intro aug_path_cf) simp_all
  then have "d \<le> cf (aug_path d (y # p) st) x y" using 1(6) by simp
  with IH show ?case using 1(4,5) by (simp add: flow_inv_push)
qed simp_all

section \<open>The depth-first search finds a path and augments along it\<close>

lemma mark_mono: "xs ! x \<Longrightarrow> xs[u := True] ! x"
  by (cases "u < length xs") (simp_all add: nth_list_update list_update_beyond)

lemma dfs_mono:
  "dfs_visit k st u t fl = Some (st', r) \<Longrightarrow> visited st ! x \<Longrightarrow> visited st' ! x"
  "dfs_for k st u vs t fl = Some (st', r) \<Longrightarrow> visited st ! x \<Longrightarrow> visited st' ! x"
proof (induction k st u t fl and k st u vs t fl arbitrary: st' r and st' r
       rule: dfs_visit_dfs_for.induct)
  case (1 st u t fl)
  then show ?case by simp
next
  case (2 k st u t fl)
  let ?st1 = "st\<lparr>visited := (visited st)[u := True]\<rparr>"
  have m: "visited ?st1 ! x" using "2.prems"(2) by (simp add: mark_mono)
  show ?case
  proof (cases "u = t")
    case True
    with "2.prems" have "st' = ?st1" by simp
    with m show ?thesis by simp
  next
    case False
    with "2.prems" have "dfs_for k ?st1 u (Gf ?st1 ! u) t fl = Some (st', r)" by simp
    from "2.IH"[OF refl False this m] show ?thesis .
  qed
next
  case (3 k st u t fl)
  then show ?case by simp
next
  case (4 k st u v vs t fl)
  show ?case
  proof (cases "visited st ! v \<or> cf st u v = 0")
    case True
    with "4.prems" have "dfs_for k st u vs t fl = Some (st', r)" by simp
    from "4.IH"(1)[OF True this "4.prems"(2)] show ?thesis .
  next
    case False
    with "4.prems" obtain st1 r1 where
      v: "dfs_visit k st v t (min fl (cf st u v)) = Some (st1, r1)"
      by (auto split: option.splits)
    from "4.IH"(2)[OF False v "4.prems"(2)] have m1: "visited st1 ! x" .
    show ?thesis
    proof (cases "0 < r1")
      case True
      with "4.prems" False v
      have "st' = add_flow v u (- r1) (add_flow u v r1 st1)" by auto
      with m1 show ?thesis by simp
    next
      case r1: False
      with "4.prems" False v have "dfs_for k st1 u vs t fl = Some (st', r)" by simp
      from "4.IH"(3)[OF False v refl r1 this m1] show ?thesis .
    qed
  qed
qed

lemma wf_net_same:
  "wf_net st \<Longrightarrow> c st' = c st \<Longrightarrow> f st' = f st \<Longrightarrow> Gf st' = Gf st \<Longrightarrow> n st' = n st \<Longrightarrow>
   wf_net st'"
  by (simp add: wf_net_def)

lemma path_le_same:
  "c st' = c st \<Longrightarrow> f st' = f st \<Longrightarrow> path_le st' d p = path_le st d p"
  by (induction st d p rule: path_le.induct) (simp_all add: cf_def)

lemma add_flow_visited:
  "add_flow u v d (st\<lparr>visited := V\<rparr>) = (add_flow u v d st)\<lparr>visited := V\<rparr>"
  by (simp add: add_flow_def Let_def)

lemma push_visited: "push d x y (st\<lparr>visited := V\<rparr>) = (push d x y st)\<lparr>visited := V\<rparr>"
  by (simp add: push_def add_flow_visited)

lemma aug_path_visited:
  "aug_path d p (st\<lparr>visited := V\<rparr>) = (aug_path d p st)\<lparr>visited := V\<rparr>"
  by (induction d p st rule: aug_path.induct) (simp_all add: push_visited)

text \<open>A failed part of the search changes nothing but the marks.\<close>

lemma dfs_keeps_failed:
  assumes "dfs_keeps st st1 r1" "\<not> 0 < r1"
  shows "st1\<lparr>visited := V\<rparr> = st\<lparr>visited := V\<rparr>"
  using assms by (intro ford_fulkerson.equality) (simp_all add: dfs_keeps_def)

text \<open>What a successful search has done: \<open>p\<close> is the path, \<open>r\<close> the value returned.\<close>

definition dfs_found ::
  "ford_fulkerson \<Rightarrow> ford_fulkerson \<Rightarrow> int \<Rightarrow> int \<Rightarrow> nat list \<Rightarrow> bool" where
  "dfs_found st st' fl r p \<longleftrightarrow>
     distinct p \<and> (\<forall>x \<in> set p. x < n st) \<and> path_le st r p \<and> r \<le> fl \<and>
     st' = aug_path r p (st\<lparr>visited := visited st'\<rparr>)"

lemma dfs_path:
  "dfs_visit k st u t fl = Some (st', r) \<Longrightarrow> wf_net st \<Longrightarrow> length (visited st) = n st \<Longrightarrow>
   u < n st \<Longrightarrow> \<not> visited st ! u \<Longrightarrow> 0 < r \<Longrightarrow>
   \<exists>p. hd p = u \<and> last p = t \<and> p \<noteq> [] \<and> (\<forall>x \<in> set p. \<not> visited st ! x) \<and>
       dfs_found st st' fl r p"
  "dfs_for k st u vs t fl = Some (st', r) \<Longrightarrow> wf_net st \<Longrightarrow> length (visited st) = n st \<Longrightarrow>
   u < n st \<Longrightarrow> visited st ! u \<Longrightarrow> \<forall>v \<in> set vs. v < n st \<Longrightarrow> 0 < r \<Longrightarrow>
   \<exists>p. last p = t \<and> p \<noteq> [] \<and> (\<forall>x \<in> set p. \<not> visited st ! x) \<and>
       dfs_found st st' fl r (u # p)"
proof (induction k st u t fl and k st u vs t fl arbitrary: st' r and st' r
       rule: dfs_visit_dfs_for.induct)
  case (1 st u t fl)
  then show ?case by simp
next
  case (2 k st u t fl)
  let ?st1 = "st\<lparr>visited := (visited st)[u := True]\<rparr>"
  show ?case
  proof (cases "u = t")
    case True
    with "2.prems" have "st' = ?st1" "r = fl" by simp_all
    then have "dfs_found st st' fl r [u]"
      using "2.prems"(4) by (simp add: dfs_found_def)
    then show ?thesis using True "2.prems"(5) by (intro exI[of _ "[u]"]) simp
  next
    case False
    with "2.prems" have d: "dfs_for k ?st1 u (Gf ?st1 ! u) t fl = Some (st', r)" by simp
    have w1: "wf_net ?st1" using "2.prems"(2) by (rule wf_net_same) simp_all
    have adj: "\<forall>v \<in> set (Gf ?st1 ! u). v < n ?st1"
      using wf_net_adj[OF "2.prems"(2,4)] by simp
    have "\<exists>p. last p = t \<and> p \<noteq> [] \<and> (\<forall>x \<in> set p. \<not> visited ?st1 ! x) \<and>
       dfs_found ?st1 st' fl r (u # p)"
      using "2.prems"(3,4,6) by (intro "2.IH"[OF refl False d w1 _ _ _ adj]) simp_all
    then obtain p where p: "last p = t" "p \<noteq> []" "\<forall>x \<in> set p. \<not> visited ?st1 ! x"
      "dfs_found ?st1 st' fl r (u # p)" by blast
    have nv: "\<forall>x \<in> set (u # p). \<not> visited st ! x"
      using p(3) "2.prems"(5) mark_mono[of "visited st" _ u] by auto
    have "path_le ?st1 r (u # p) = path_le st r (u # p)" by (rule path_le_same) simp_all
    with p(4) have "dfs_found st st' fl r (u # p)" by (simp add: dfs_found_def)
    with p(1,2) nv show ?thesis by (intro exI[of _ "u # p"]) simp
  qed
next
  case (3 k st u t fl)
  then show ?case by simp
next
  case (4 k st u v vs t fl)
  show ?case
  proof (cases "visited st ! v \<or> cf st u v = 0")
    case True
    with "4.prems" have "dfs_for k st u vs t fl = Some (st', r)" by simp
    from "4.IH"(1)[OF True this "4.prems"(2-5) _ "4.prems"(7)] "4.prems"(6)
    show ?thesis by simp
  next
    case False
    with "4.prems" obtain st1 r1 where
      v: "dfs_visit k st v t (min fl (cf st u v)) = Some (st1, r1)"
      by (auto split: option.splits)
    have k1: "dfs_keeps st st1 r1" using v by (rule dfs_frame)
    have vn: "v < n st" using "4.prems"(6) by simp
    show ?thesis
    proof (cases "0 < r1")
      case True
      with "4.prems" False v
      have st': "st' = push r1 u v st1" and r: "r = r1" by (auto simp: push_def)
      from False have "\<not> visited st ! v" by simp
      from "4.IH"(2)[OF False v "4.prems"(2,3) vn this True]
      obtain q where q: "hd q = v" "last q = t" "q \<noteq> []" "\<forall>x \<in> set q. \<not> visited st ! x"
        "dfs_found st st1 (min fl (cf st u v)) r1 q" by blast
      from q(1,3) obtain q' where qq: "q = v # q'" by (cases q) auto
      have "u \<notin> set q" using q(4) "4.prems"(5) by auto
      moreover have "st' = aug_path r1 (u # q) (st\<lparr>visited := visited st'\<rparr>)"
        using q(5) st' unfolding qq dfs_found_def by simp
      ultimately have "dfs_found st st' fl r (u # q)"
        using q(5) "4.prems"(4) r unfolding qq dfs_found_def by simp
      with q(2,3,4) show ?thesis by (intro exI[of _ q]) simp
    next
      case r1: False
      with "4.prems" False v have d: "dfs_for k st1 u vs t fl = Some (st', r)" by simp
      from k1 r1 have same: "c st1 = c st" "f st1 = f st" "Gf st1 = Gf st" "n st1 = n st"
        "length (visited st1) = length (visited st)" by (simp_all add: dfs_keeps_def)
      have w1: "wf_net st1" using "4.prems"(2) same(1-4) by (rule wf_net_same)
      have u1: "visited st1 ! u" using v "4.prems"(5) by (rule dfs_mono)
      have "\<exists>p. last p = t \<and> p \<noteq> [] \<and> (\<forall>x \<in> set p. \<not> visited st1 ! x) \<and>
          dfs_found st1 st' fl r (u # p)"
        using "4.prems"(3,4,6,7) same
        by (intro "4.IH"(3)[OF False v refl r1 d w1 _ _ u1]) simp_all
      then obtain p where p: "last p = t" "p \<noteq> []" "\<forall>x \<in> set p. \<not> visited st1 ! x"
        "dfs_found st1 st' fl r (u # p)" by blast
      have nv: "\<forall>x \<in> set p. \<not> visited st ! x"
        using p(3) dfs_mono(1)[OF v] by blast
      have "path_le st1 r (u # p) = path_le st r (u # p)" using same(1,2) by (rule path_le_same)
      moreover have "st1\<lparr>visited := visited st'\<rparr> = st\<lparr>visited := visited st'\<rparr>"
        using k1 r1 by (rule dfs_keeps_failed)
      ultimately have "dfs_found st st' fl r (u # p)"
        using p(4) same(4) unfolding dfs_found_def by simp
      with p(1,2) nv show ?thesis by (intro exI[of _ p]) simp
    qed
  qed
qed

subsection \<open>The recursion is never deeper than the number of unmarked vertices\<close>

definition unmarked :: "bool list \<Rightarrow> nat set" where
  "unmarked xs = {i. i < length xs \<and> \<not> xs ! i}"

lemma finite_unmarked [simp]: "finite (unmarked xs)"
  by (simp add: unmarked_def)

lemma unmarked_mark:
  assumes "u < length xs" "\<not> xs ! u"
  shows "card (unmarked (xs[u := True])) < card (unmarked xs)"
proof -
  have "unmarked (xs[u := True]) = unmarked xs - {u}"
    using assms by (auto simp: unmarked_def nth_list_update)
  moreover have "u \<in> unmarked xs" using assms by (simp add: unmarked_def)
  then have "card (unmarked xs - {u}) < card (unmarked xs)"
    by (intro card_Diff1_less) simp_all
  ultimately show ?thesis by simp
qed

lemma unmarked_mono:
  assumes "length ys = length xs" "\<And>x. xs ! x \<Longrightarrow> ys ! x"
  shows "card (unmarked ys) \<le> card (unmarked xs)"
proof (rule card_mono)
  show "unmarked ys \<subseteq> unmarked xs" using assms by (auto simp: unmarked_def)
qed simp

lemma dfs_returns:
  "wf_net st \<Longrightarrow> length (visited st) = n st \<Longrightarrow> u < n st \<Longrightarrow> \<not> visited st ! u \<Longrightarrow>
   card (unmarked (visited st)) \<le> k \<Longrightarrow> dfs_visit k st u t fl \<noteq> None"
  "wf_net st \<Longrightarrow> length (visited st) = n st \<Longrightarrow> \<forall>v \<in> set vs. v < n st \<Longrightarrow>
   card (unmarked (visited st)) \<le> k \<Longrightarrow> dfs_for k st u vs t fl \<noteq> None"
proof (induction k st u t fl and k st u vs t fl rule: dfs_visit_dfs_for.induct)
  case (1 st u t fl)
  then have "u \<in> unmarked (visited st)" by (simp add: unmarked_def)
  then have "unmarked (visited st) \<noteq> {}" by blast
  with 1(5) show ?case by simp
next
  case (2 k st u t fl)
  let ?st1 = "st\<lparr>visited := (visited st)[u := True]\<rparr>"
  show ?case
  proof (cases "u = t")
    case True
    then show ?thesis by simp
  next
    case False
    have w1: "wf_net ?st1" using "2.prems"(1) by (rule wf_net_same) simp_all
    have adj: "\<forall>v \<in> set (Gf ?st1 ! u). v < n ?st1"
      using wf_net_adj[OF "2.prems"(1,3)] by simp
    have "card (unmarked (visited ?st1)) < card (unmarked (visited st))"
      using "2.prems"(2,3,4) by (simp add: unmarked_mark)
    with "2.prems"(5) have "card (unmarked (visited ?st1)) \<le> k" by simp
    with "2.prems"(2) have "dfs_for k ?st1 u (Gf ?st1 ! u) t fl \<noteq> None"
      by (intro "2.IH"[OF refl False w1 _ adj]) simp_all
    with False show ?thesis by simp
  qed
next
  case (3 k st u t fl)
  then show ?case by simp
next
  case (4 k st u v vs t fl)
  show ?case
  proof (cases "visited st ! v \<or> cf st u v = 0")
    case True
    with "4.IH"(1)[OF True "4.prems"(1,2) _ "4.prems"(4)] "4.prems"(3)
    show ?thesis by simp
  next
    case False
    have vn: "v < n st" using "4.prems"(3) by simp
    from False have "\<not> visited st ! v" by simp
    from "4.IH"(2)[OF False "4.prems"(1,2) vn this "4.prems"(4)]
    obtain st1 r1 where
      v: "dfs_visit k st v t (min fl (cf st u v)) = Some (st1, r1)" by auto
    show ?thesis
    proof (cases "0 < r1")
      case True
      with False v show ?thesis by simp
    next
      case r1: False
      have k1: "dfs_keeps st st1 r1" using v by (rule dfs_frame)
      with r1 have same: "c st1 = c st" "f st1 = f st" "Gf st1 = Gf st" "n st1 = n st"
        "length (visited st1) = length (visited st)" by (simp_all add: dfs_keeps_def)
      have w1: "wf_net st1" using "4.prems"(1) same(1-4) by (rule wf_net_same)
      have "card (unmarked (visited st1)) \<le> card (unmarked (visited st))"
        using same(5) dfs_mono(1)[OF v] by (rule unmarked_mono)
      with "4.prems"(4) have "card (unmarked (visited st1)) \<le> k" by simp
      with "4.prems"(2,3) same have "dfs_for k st1 u vs t fl \<noteq> None"
        by (intro "4.IH"(3)[OF False v refl r1 w1]) simp_all
      with False v r1 show ?thesis by simp
    qed
  qed
qed

subsection \<open>A failed search has marked everything it could reach\<close>

text \<open>\<open>closed_from st st'\<close>: every vertex marked between \<open>st\<close> and \<open>st'\<close> has all its
  neighbours of non-zero residual capacity marked in \<open>st'\<close>.\<close>

definition closed_from :: "ford_fulkerson \<Rightarrow> ford_fulkerson \<Rightarrow> bool" where
  "closed_from st st' \<longleftrightarrow>
     (\<forall>x < n st. visited st' ! x \<and> \<not> visited st ! x \<longrightarrow>
        (\<forall>y \<in> set (Gf st ! x). cf st x y \<noteq> 0 \<longrightarrow> visited st' ! y))"

lemma capb_cf_nonneg: "capb st \<Longrightarrow> x < n st \<Longrightarrow> y < n st \<Longrightarrow> 0 \<le> cf st x y"
  using capbD[of st x y] by (simp add: cf_def)

lemma capb_same: "capb st \<Longrightarrow> c st' = c st \<Longrightarrow> f st' = f st \<Longrightarrow> n st' = n st \<Longrightarrow> capb st'"
  by (simp add: capb_def)

lemma dfs_closed:
  "dfs_visit k st u t fl = Some (st', r) \<Longrightarrow> wf_net st \<Longrightarrow> capb st \<Longrightarrow>
   length (visited st) = n st \<Longrightarrow> u < n st \<Longrightarrow> 0 < fl \<Longrightarrow> \<not> 0 < r \<Longrightarrow>
   closed_from st st' \<and> visited st' ! u \<and> (\<not> visited st ! t \<longrightarrow> \<not> visited st' ! t)"
  "dfs_for k st u vs t fl = Some (st', r) \<Longrightarrow> wf_net st \<Longrightarrow> capb st \<Longrightarrow>
   length (visited st) = n st \<Longrightarrow> u < n st \<Longrightarrow> \<forall>v \<in> set vs. v < n st \<Longrightarrow> 0 < fl \<Longrightarrow> \<not> 0 < r \<Longrightarrow>
   closed_from st st' \<and> (\<forall>y \<in> set vs. cf st u y \<noteq> 0 \<longrightarrow> visited st' ! y) \<and>
   (\<not> visited st ! t \<longrightarrow> \<not> visited st' ! t)"
proof (induction k st u t fl and k st u vs t fl arbitrary: st' r and st' r
       rule: dfs_visit_dfs_for.induct)
  case (1 st u t fl)
  then show ?case by simp
next
  case (2 k st u t fl)
  let ?st1 = "st\<lparr>visited := (visited st)[u := True]\<rparr>"
  have ut: "u \<noteq> t"
  proof
    assume "u = t"
    with "2.prems"(1) have "r = fl" by simp
    with "2.prems"(6,7) show False by simp
  qed
  with "2.prems" have d: "dfs_for k ?st1 u (Gf ?st1 ! u) t fl = Some (st', r)" by simp
  have w1: "wf_net ?st1" using "2.prems"(2) by (rule wf_net_same) simp_all
  have c1: "capb ?st1" using "2.prems"(3) by (rule capb_same) simp_all
  have adj: "\<forall>v \<in> set (Gf ?st1 ! u). v < n ?st1"
    using wf_net_adj[OF "2.prems"(2,5)] by simp
  have IH: "closed_from ?st1 st' \<and> (\<forall>y \<in> set (Gf ?st1 ! u). cf ?st1 u y \<noteq> 0 \<longrightarrow> visited st' ! y) \<and>
     (\<not> visited ?st1 ! t \<longrightarrow> \<not> visited st' ! t)"
    using "2.prems"(4,5,6,7) by (intro "2.IH"[OF refl ut d w1 c1 _ _ adj]) simp_all
  have u1: "visited ?st1 ! u" using "2.prems"(4,5) by simp
  have u': "visited st' ! u" using d u1 by (rule dfs_mono)
  have cfeq: "\<And>x y. cf ?st1 x y = cf st x y" by (simp add: cf_def)
  have "closed_from st st'"
    unfolding closed_from_def
  proof (intro allI impI ballI)
    fix x y assume x: "x < n st" "visited st' ! x \<and> \<not> visited st ! x"
      and y: "y \<in> set (Gf st ! x)" "cf st x y \<noteq> 0"
    show "visited st' ! y"
    proof (cases "x = u")
      case True
      with IH y show ?thesis by (simp add: cfeq)
    next
      case False
      then have "\<not> visited ?st1 ! x" using x(2) by simp
      with IH x y show ?thesis by (simp add: closed_from_def cfeq)
    qed
  qed
  moreover have "\<not> visited st ! t \<longrightarrow> \<not> visited st' ! t"
    using IH ut by simp
  ultimately show ?case using u' by simp
next
  case (3 k st u t fl)
  then show ?case by (simp add: closed_from_def)
next
  case (4 k st u v vs t fl)
  show ?case
  proof (cases "visited st ! v \<or> cf st u v = 0")
    case True
    with "4.prems" have d: "dfs_for k st u vs t fl = Some (st', r)" by simp
    have IH: "closed_from st st' \<and> (\<forall>y \<in> set vs. cf st u y \<noteq> 0 \<longrightarrow> visited st' ! y) \<and>
      (\<not> visited st ! t \<longrightarrow> \<not> visited st' ! t)"
      using "4.prems"(6) by (intro "4.IH"(1)[OF True d "4.prems"(2-5) _ "4.prems"(7,8)]) simp
    have "cf st u v \<noteq> 0 \<longrightarrow> visited st' ! v"
      using True dfs_mono(2)[OF d] by blast
    with IH show ?thesis by simp
  next
    case False
    with "4.prems" obtain st1 r1 where
      v: "dfs_visit k st v t (min fl (cf st u v)) = Some (st1, r1)"
      by (auto split: option.splits)
    have k1: "dfs_keeps st st1 r1" using v by (rule dfs_frame)
    have vn: "v < n st" using "4.prems"(6) by simp
    have r1: "\<not> 0 < r1"
    proof
      assume "0 < r1"
      with "4.prems"(1) False v have "r = r1" by auto
      with \<open>0 < r1\<close> "4.prems"(8) show False by simp
    qed
    with "4.prems" False v have d: "dfs_for k st1 u vs t fl = Some (st', r)" by simp
    from k1 r1 have same: "c st1 = c st" "f st1 = f st" "Gf st1 = Gf st" "n st1 = n st"
      "length (visited st1) = length (visited st)" by (simp_all add: dfs_keeps_def)
    have cfeq: "\<And>x y. cf st1 x y = cf st x y" using same by (simp add: cf_def)
    have "0 \<le> cf st u v" using "4.prems"(3,5) vn by (rule capb_cf_nonneg)
    with False "4.prems"(7) have fl': "0 < min fl (cf st u v)" by simp
    from "4.IH"(2)[OF False v "4.prems"(2-4) vn fl' r1]
    have IH2: "closed_from st st1" "visited st1 ! v" "\<not> visited st ! t \<longrightarrow> \<not> visited st1 ! t"
      by simp_all
    have w1: "wf_net st1" using "4.prems"(2) same(1-4) by (rule wf_net_same)
    have c1: "capb st1" using "4.prems"(3) same(1,2,4) by (rule capb_same)
    have IH3: "closed_from st1 st' \<and> (\<forall>y \<in> set vs. cf st1 u y \<noteq> 0 \<longrightarrow> visited st' ! y) \<and>
      (\<not> visited st1 ! t \<longrightarrow> \<not> visited st' ! t)"
      using "4.prems"(4-8) same
      by (intro "4.IH"(3)[OF False v refl r1 d w1 c1]) simp_all
    have "closed_from st st'"
      unfolding closed_from_def
    proof (intro allI impI ballI)
      fix x y assume x: "x < n st" "visited st' ! x \<and> \<not> visited st ! x"
        and y: "y \<in> set (Gf st ! x)" "cf st x y \<noteq> 0"
      show "visited st' ! y"
      proof (cases "visited st1 ! x")
        case True
        with IH2(1) x y have "visited st1 ! y" by (simp add: closed_from_def)
        with d show ?thesis by (rule dfs_mono)
      next
        case False
        with IH3 x y same show ?thesis by (simp add: closed_from_def cfeq)
      qed
    qed
    moreover have "visited st' ! v" using d IH2(2) by (rule dfs_mono)
    ultimately show ?thesis using IH3 IH2(3) by (simp add: cfeq)
  qed
qed

section \<open>The invariant of a run\<close>

text \<open>The adjacency lists are symmetric and hold every pair that has a capacity or a flow.\<close>

definition adj_ok :: "'a net_scheme \<Rightarrow> bool" where
  "adj_ok st \<longleftrightarrow>
     (\<forall>x < n st. \<forall>y < n st. y \<notin> set (Gf st ! x) \<longrightarrow> c st ! x ! y = 0 \<and> f st ! x ! y = 0) \<and>
     (\<forall>x < n st. \<forall>y \<in> set (Gf st ! x). x \<in> set (Gf st ! y))"

definition net_inv :: "'a net_scheme \<Rightarrow> bool" where
  "net_inv st \<longleftrightarrow> flow_inv st \<and> adj_ok st"

text \<open>The residual network: the pairs of strictly positive residual capacity.\<close>

definition res_edges :: "'a net_scheme \<Rightarrow> (nat \<times> nat) set" where
  "res_edges st = {(x, y). x < n st \<and> y < n st \<and> 0 < cf st x y}"

lemma adj_edge:
  assumes "adj_ok st" "x < n st" "y < n st" "cf st x y \<noteq> 0"
  shows "y \<in> set (Gf st ! x)"
proof (rule ccontr)
  assume "y \<notin> set (Gf st ! x)"
  with assms(1-3) have "c st ! x ! y = 0 \<and> f st ! x ! y = 0" unfolding adj_ok_def by blast
  with assms(4) show False by (simp add: cf_def)
qed

lemma adj_sym: "adj_ok st \<Longrightarrow> x < n st \<Longrightarrow> y \<in> set (Gf st ! x) \<Longrightarrow> x \<in> set (Gf st ! y)"
  unfolding adj_ok_def by blast

lemma adj_ok_push:
  assumes "adj_ok st" "wf_net st" "x < n st" "y < n st" "y \<in> set (Gf st ! x)"
  shows "adj_ok (push d x y st)"
proof -
  have yx: "x \<in> set (Gf st ! y)" using assms(1,3,5) by (rule adj_sym)
  have "c (push d x y st) ! a ! b = 0 \<and> f (push d x y st) ! a ! b = 0"
    if ab: "a < n st" "b < n st" "b \<notin> set (Gf st ! a)" for a b
  proof -
    have 0: "c st ! a ! b = 0 \<and> f st ! a ! b = 0" using assms(1) ab unfolding adj_ok_def by blast
    have 1: "\<not> (a = x \<and> b = y)" using ab(3) assms(5) by blast
    have 2: "\<not> (a = y \<and> b = x)" using ab(3) yx by blast
    from 1 have i1: "(if a = x \<and> b = y then d else 0) = 0" by (rule if_not_P)
    from 2 have i2: "(if a = y \<and> b = x then d else 0) = 0" by (rule if_not_P)
    have "f (push d x y st) ! a ! b =
        f st ! a ! b + (if a = x \<and> b = y then d else 0) - (if a = y \<and> b = x then d else 0)"
      using assms(2,3,4) ab(1) by (rule push_f)
    then have "f (push d x y st) ! a ! b = f st ! a ! b" unfolding i1 i2 by simp
    with 0 show ?thesis by simp
  qed
  moreover have "\<forall>a < n st. \<forall>b \<in> set (Gf st ! a). a \<in> set (Gf st ! b)"
    using assms(1) unfolding adj_ok_def by blast
  ultimately show ?thesis unfolding adj_ok_def by simp
qed

lemma adj_ok_aug_path:
  assumes "adj_ok st" "wf_net st" "\<forall>x \<in> set p. x < n st" "0 < d" "path_le st d p"
  shows "adj_ok (aug_path d p st)"
  using assms
proof (induction d p st rule: aug_path.induct)
  case (1 d x y p st)
  have IH: "adj_ok (aug_path d (y # p) st)" using 1 by simp
  have xy: "x < n st" "y < n st" using 1(4) by simp_all
  have "cf st x y \<noteq> 0" using 1(5,6) by simp
  with 1(2) xy have "y \<in> set (Gf st ! x)" by (rule adj_edge)
  with IH wf_aug_path[OF 1(3), of d "y # p"] xy show ?case by (simp add: adj_ok_push)
qed simp_all

lemma net_inv_aug_path:
  assumes "net_inv st" "distinct p" "\<forall>x \<in> set p. x < n st" "0 < d" "path_le st d p"
  shows "net_inv (aug_path d p st)"
proof -
  from assms(1) have fi: "flow_inv st" and a: "adj_ok st" by (simp_all add: net_inv_def)
  from fi have w: "wf_net st" by (simp add: flow_inv_def)
  have "flow_inv (aug_path d p st)" using fi assms(2,3) _ assms(5)
    by (rule flow_inv_aug_path) (use assms(4) in simp)
  moreover have "adj_ok (aug_path d p st)" using a w assms(3-5) by (rule adj_ok_aug_path)
  ultimately show ?thesis by (simp add: net_inv_def)
qed

lemma skew_same: "f st' = f st \<Longrightarrow> n st' = n st \<Longrightarrow> skew st' = skew st"
  by (simp add: skew_def)

lemma hist_ok_same:
  "hist st' = hist st \<Longrightarrow> c st' = c st \<Longrightarrow> n st' = n st \<Longrightarrow> hist_ok st' = hist_ok st"
  by (simp add: hist_ok_def mat_ok_def)

lemma adj_ok_same:
  "c st' = c st \<Longrightarrow> f st' = f st \<Longrightarrow> Gf st' = Gf st \<Longrightarrow> n st' = n st \<Longrightarrow>
   adj_ok st' = adj_ok st"
  by (simp add: adj_ok_def)

lemma net_inv_same:
  assumes "net_same st st'" "net_inv st"
  shows "net_inv st'"
proof -
  from assms(1) have e: "c st' = c st" "f st' = f st" "Gf st' = Gf st" "n st' = n st"
    "hist st' = hist st" by (simp_all add: net_same_def)
  from assms(2) have i: "wf_net st" "skew st" "capb st" "hist_ok st" "adj_ok st"
    by (simp_all add: net_inv_def flow_inv_def)
  have "wf_net st'" using i(1) e(1-4) by (rule wf_net_same)
  moreover have "skew st'" using i(2) skew_same[OF e(2,4)] by simp
  moreover have "capb st'" using i(3) e(1,2,4) by (rule capb_same)
  moreover have "hist_ok st'" using i(4) hist_ok_same[OF e(5,1,4)] by simp
  moreover have "adj_ok st'" using i(5) adj_ok_same[OF e(1-4)] by simp
  ultimately show ?thesis by (simp add: net_inv_def flow_inv_def)
qed

lemma net_out_same: "net_same st st' \<Longrightarrow> net_out st' x = net_out st x"
  by (simp add: net_same_def net_out_def)

lemma res_edges_same: "net_same st st' \<Longrightarrow> res_edges st' = res_edges st"
  by (simp add: net_same_def res_edges_def cf_def)

lemma net_invD:
  "net_inv st \<Longrightarrow> wf_net st" "net_inv st \<Longrightarrow> skew st" "net_inv st \<Longrightarrow> capb st"
  "net_inv st \<Longrightarrow> hist_ok st" "net_inv st \<Longrightarrow> adj_ok st"
  by (simp_all add: net_inv_def flow_inv_def)

lemma closed_unreachable:
  assumes "\<And>x y. x \<in> V \<Longrightarrow> (x, y) \<in> res_edges st \<Longrightarrow> y \<in> V" "s \<in> V" "t \<notin> V"
  shows "(s, t) \<notin> (res_edges st)\<^sup>*"
proof
  assume "(s, t) \<in> (res_edges st)\<^sup>*"
  then have "t \<in> V"
    by (induction rule: rtrancl_induct) (use assms(1,2) in blast)+
  with assms(3) show False by simp
qed

subsection \<open>One call of \<open>dfs\<close>\<close>

lemma dfs_total:
  assumes "wf_net st" "s < n st"
  shows "\<exists>st' b. dfs st s t = Some (st', b)"
proof -
  let ?st0 = "st\<lparr>visited := replicate (n st) False\<rparr>"
  have w0: "wf_net ?st0" using assms(1) by (rule wf_net_same) simp_all
  have "unmarked (visited ?st0) \<subseteq> {..<n st}" by (auto simp: unmarked_def)
  then have "card (unmarked (visited ?st0)) \<le> card {..<n st}" by (intro card_mono) simp_all
  then have "card (unmarked (visited ?st0)) \<le> n ?st0" by simp
  with w0 assms(2) have "dfs_visit (n ?st0) ?st0 s t limits_inf \<noteq> None"
    by (intro dfs_returns(1)) simp_all
  then show ?thesis by (auto simp: dfs_def)
qed

lemma dfs_success:
  assumes "dfs st s t = Some (st', True)" "wf_net st" "s < n st"
  shows "\<exists>p. hd p = s \<and> last p = t \<and> p \<noteq> [] \<and> distinct p \<and> (\<forall>x \<in> set p. x < n st) \<and>
           0 < augment st' \<and> path_le st (augment st') p \<and>
           net_same (aug_path (augment st') p st) st'"
proof -
  let ?st0 = "st\<lparr>visited := replicate (n st) False\<rparr>"
  from assms(1) obtain st1 r where
    1: "dfs_visit (n st) ?st0 s t limits_inf = Some (st1, r)"
    and 2: "st' = st1\<lparr>augment := r\<rparr>" "0 < r"
    by (auto simp: dfs_def split: option.splits)
  have w0: "wf_net ?st0" using assms(2) by (rule wf_net_same) simp_all
  have "\<exists>p. hd p = s \<and> last p = t \<and> p \<noteq> [] \<and> (\<forall>x \<in> set p. \<not> visited ?st0 ! x) \<and>
       dfs_found ?st0 st1 limits_inf r p"
    using 1 w0 _ _ _ 2(2) by (rule dfs_path(1)) (use assms(3) in simp_all)
  then obtain p where p: "hd p = s" "last p = t" "p \<noteq> []" "dfs_found ?st0 st1 limits_inf r p"
    by blast
  from p(4) have d: "distinct p" "\<forall>x \<in> set p. x < n st" "path_le ?st0 r p"
    and st1: "st1 = aug_path r p (?st0\<lparr>visited := visited st1\<rparr>)"
    by (simp_all add: dfs_found_def)
  have "path_le ?st0 r p = path_le st r p" by (rule path_le_same) simp_all
  with d(3) have pl: "path_le st r p" by simp
  have "st1 = (aug_path r p st)\<lparr>visited := visited st1\<rparr>"
    using st1 by (simp add: aug_path_visited)
  then have "net_same (aug_path r p st) st1"
    unfolding net_same_def by (metis net.select_convs(2-6) net.surjective net.update_convs(1))
  then have "net_same (aug_path r p st) st'" using 2(1) by (simp add: net_same_def)
  with p(1-3) d(1,2) pl 2 show ?thesis by (intro exI[of _ p]) simp
qed

lemma closed_fromD:
  "closed_from st st' \<Longrightarrow> x < n st \<Longrightarrow> visited st' ! x \<Longrightarrow> \<not> visited st ! x \<Longrightarrow>
   y \<in> set (Gf st ! x) \<Longrightarrow> cf st x y \<noteq> 0 \<Longrightarrow> visited st' ! y"
  unfolding closed_from_def by blast

lemma dfs_failure:
  assumes "dfs st s t = Some (st', False)" "wf_net st" "capb st" "adj_ok st"
    "s < n st" "t < n st"
  shows "net_same st st' \<and> (s, t) \<notin> (res_edges st)\<^sup>*"
proof -
  let ?st0 = "st\<lparr>visited := replicate (n st) False\<rparr>"
  from assms(1) obtain st1 r where
    1: "dfs_visit (n st) ?st0 s t limits_inf = Some (st1, r)"
    and 2: "st' = st1\<lparr>augment := r\<rparr>" "\<not> 0 < r"
    by (auto simp: dfs_def split: option.splits)
  have w0: "wf_net ?st0" using assms(2) by (rule wf_net_same) simp_all
  have c0: "capb ?st0" using assms(3) by (rule capb_same) simp_all
  have k: "dfs_keeps ?st0 st1 r" using 1 by (rule dfs_frame)
  with 2 have same: "net_same st st'" by (simp add: dfs_keeps_def net_same_def)
  have "closed_from ?st0 st1 \<and> visited st1 ! s \<and> (\<not> visited ?st0 ! t \<longrightarrow> \<not> visited st1 ! t)"
    using 1 w0 c0 _ _ _ 2(2) by (rule dfs_closed(1)) (use assms(5) in \<open>simp_all add: limits_inf_def\<close>)
  then have cl: "closed_from ?st0 st1" and vs: "visited st1 ! s" and vt: "\<not> visited st1 ! t"
    using assms(6) by simp_all
  let ?V = "{x. x < n st \<and> visited st1 ! x}"
  have "(s, t) \<notin> (res_edges st)\<^sup>*"
  proof (rule closed_unreachable[where V = ?V])
    show "s \<in> ?V" using vs assms(5) by simp
    show "t \<notin> ?V" using vt by simp
  next
    fix x y assume x: "x \<in> ?V" and e: "(x, y) \<in> res_edges st"
    from e have xy: "x < n st" "y < n st" "cf st x y \<noteq> 0" by (auto simp: res_edges_def)
    with assms(4) have "y \<in> set (Gf st ! x)" by (intro adj_edge)
    then have y0: "y \<in> set (Gf ?st0 ! x)" by simp
    have cf0: "cf ?st0 x y \<noteq> 0" using xy(3) by (simp add: cf_def)
    have x0: "x < n ?st0" "visited st1 ! x" "\<not> visited ?st0 ! x" using x by simp_all
    from cl x0 y0 cf0 have "visited st1 ! y" by (rule closed_fromD)
    with xy(2) show "y \<in> ?V" by simp
  qed
  with same show ?thesis by simp
qed

lemma dfs_step:
  assumes "net_inv st" "s < n st" "t < n st" "dfs st s t = Some (st', b)"
  shows "net_inv st' \<and> c st' = c st \<and> Gf st' = Gf st \<and> n st' = n st \<and>
         (b \<longrightarrow> 0 < augment st') \<and>
         (\<forall>x < n st. net_out st' x =
            net_out st x + (if b \<and> x = s then augment st' else 0)
                         - (if b \<and> x = t then augment st' else 0)) \<and>
         (\<not> b \<longrightarrow> f st' = f st \<and> hist st' = hist st \<and> (s, t) \<notin> (res_edges st')\<^sup>*)"
proof (cases b)
  case True
  let ?r = "augment st'"
  from assms(4) True have "dfs st s t = Some (st', True)" by simp
  from dfs_success[OF this net_invD(1)[OF assms(1)] assms(2)]
  obtain p where p: "hd p = s" "last p = t" "p \<noteq> []" "distinct p" "\<forall>x \<in> set p. x < n st"
    "0 < ?r" "path_le st ?r p" "net_same (aug_path ?r p st) st'" by blast
  have "net_inv (aug_path ?r p st)" using assms(1) p(4,5,6,7) by (rule net_inv_aug_path)
  with p(8) have 1: "net_inv st'" by (rule net_inv_same)
  have 2: "c st' = c st \<and> Gf st' = Gf st \<and> n st' = n st"
    using p(8) by (simp add: net_same_def)
  have 3: "net_out st' x = net_out st x + (if x = s then ?r else 0) - (if x = t then ?r else 0)"
    if "x < n st" for x
  proof -
    have "net_out st' x = net_out (aug_path ?r p st) x" using p(8) by (rule net_out_same)
    also have "\<dots> = net_out st x + (if x = hd p then ?r else 0) - (if x = last p then ?r else 0)"
      using net_invD(1)[OF assms(1)] p(5,3) that by (rule aug_path_net_out)
    finally show ?thesis using p(1,2) by simp
  qed
  from 1 2 3 p(6) True show ?thesis by simp
next
  case False
  with assms(4) have d: "dfs st s t = Some (st', False)" by simp
  from dfs_failure[OF d net_invD(1,3,5)[OF assms(1)] assms(2,3)]
  have same: "net_same st st'" and un: "(s, t) \<notin> (res_edges st)\<^sup>*" by simp_all
  have 1: "net_inv st'" using same assms(1) by (rule net_inv_same)
  have 2: "c st' = c st \<and> Gf st' = Gf st \<and> n st' = n st \<and> f st' = f st \<and> hist st' = hist st"
    using same by (simp add: net_same_def)
  have 3: "(s, t) \<notin> (res_edges st')\<^sup>*" using un res_edges_same[OF same] by simp
  have 4: "net_out st' x = net_out st x" for x using same by (rule net_out_same)
  from 1 2 3 4 False show ?thesis by simp
qed

subsection \<open>The loop of \<open>compute\<close> ends\<close>

lemma net_out_le_capacity:
  assumes "wf_net st" "capb st" "s < n st"
  shows "net_out st s \<le> sum_list (c st ! s)"
proof -
  have "net_out st s = (\<Sum>v < n st. f st ! s ! v)" using assms(1,3) by (rule net_out_sum)
  also have "\<dots> \<le> (\<Sum>v < n st. c st ! s ! v)"
    using assms(2,3) by (intro sum_mono capbD) simp_all
  also have "\<dots> = sum_list (c st ! s)"
    using assms(1,3) by (simp add: sum_list_sum_nth wf_net_row atLeast0LessThan)
  finally show ?thesis .
qed

text \<open>What \<open>compute\<close> has achieved when the loop has ended in state \<open>st'\<close> with value \<open>v\<close>,
  having started in \<open>st\<close> with the accumulator at \<open>a\<close>.\<close>

definition run_post ::
  "'a net_scheme \<Rightarrow> nat \<Rightarrow> nat \<Rightarrow> int \<Rightarrow> 'a net_scheme \<Rightarrow> int \<Rightarrow> bool" where
  "run_post st s t a st' v \<longleftrightarrow>
     net_inv st' \<and> c st' = c st \<and> Gf st' = Gf st \<and> n st' = n st \<and>
     v = a + (net_out st' s - net_out st s) \<and>
     (\<forall>x < n st. x \<noteq> s \<longrightarrow> x \<noteq> t \<longrightarrow> net_out st' x = net_out st x) \<and>
     (s, t) \<notin> (res_edges st')\<^sup>*"

lemma ff_while_returns:
  assumes "net_inv st" "s < n st" "t < n st" "s \<noteq> t"
  shows "\<exists>st' v. ff_while st s t a = Some (st', v) \<and> run_post st s t a st' v"
  using assms
proof (induction "nat (sum_list (c st ! s) - net_out st s)" arbitrary: st a rule: less_induct)
  case less
  from dfs_total[OF net_invD(1)[OF less.prems(1)] less.prems(2), of t]
  obtain st1 b where d: "dfs st s t = Some (st1, b)" by blast
  note step = dfs_step[OF less.prems(1-3) d]
  show ?case
  proof (cases b)
    case False
    with d have "ff_while st s t a = Some (st1, a)" by (subst ff_while.simps) simp
    moreover have "run_post st s t a st1 a"
      using step False less.prems(2) by (simp add: run_post_def)
    ultimately show ?thesis by blast
  next
    case True
    let ?r = "augment st1"
    have r: "0 < ?r" using step True by simp
    have inv1: "net_inv st1" and n1: "n st1 = n st" and c1: "c st1 = c st" and g1: "Gf st1 = Gf st"
      using step by simp_all
    have out: "\<forall>x < n st. net_out st1 x =
        net_out st x + (if x = s then ?r else 0) - (if x = t then ?r else 0)"
      using step True by simp
    then have out_s: "net_out st1 s = net_out st s + ?r" using less.prems(2,4) by simp
    have "net_out st1 s \<le> sum_list (c st1 ! s)"
      using net_invD(1,3)[OF inv1] less.prems(2) n1 by (intro net_out_le_capacity) simp_all
    with out_s r c1
    have dec: "nat (sum_list (c st1 ! s) - net_out st1 s) < nat (sum_list (c st ! s) - net_out st s)"
      by simp
    from less.hyps[OF dec inv1 _ _ less.prems(4), of "a + ?r"] less.prems(2,3) n1
    obtain st' v where w: "ff_while st1 s t (a + ?r) = Some (st', v)"
      and post: "run_post st1 s t (a + ?r) st' v" by auto
    have "ff_while st s t a = Some (st', v)"
      using d True w by (subst ff_while.simps) simp
    moreover have "run_post st s t a st' v"
      using post out out_s n1 c1 g1 less.prems(2,3) unfolding run_post_def by auto
    ultimately show ?thesis by blast
  qed
qed

section \<open>The breadth-first search\<close>

subsection \<open>The loop over one adjacency list\<close>

text \<open>What \<open>bfs_for st u vs Q = (st', Q')\<close> has done: it has appended to the queue the
  vertices \<open>new\<close> it has marked, each with predecessor \<open>u\<close>.\<close>

definition bfs_for_post ::
  "edmonds_karp \<Rightarrow> nat \<Rightarrow> nat list \<Rightarrow> nat list \<Rightarrow> edmonds_karp \<Rightarrow> nat list \<Rightarrow> nat list \<Rightarrow> bool"
  where
  "bfs_for_post st u vs Q st' Q' new \<longleftrightarrow>
     net_same st st' \<and> length (visited st') = length (visited st) \<and>
     length (pi st') = length (pi st) \<and> Q' = Q @ new \<and>
     (\<forall>x. visited st ! x \<longrightarrow> visited st' ! x \<and> pi st' ! x = pi st ! x) \<and>
     (\<forall>v \<in> set new. v \<in> set vs \<and> \<not> visited st ! v \<and> visited st' ! v \<and>
        pi st' ! v = Some u \<and> cf st u v \<noteq> 0) \<and>
     (\<forall>x < length (visited st). visited st' ! x \<longrightarrow> visited st ! x \<or> x \<in> set new) \<and>
     (\<forall>v \<in> set vs. cf st u v \<noteq> 0 \<longrightarrow> visited st' ! v)"

lemma bfs_for_correct:
  assumes "bfs_for st u vs Q = (st', Q')" "\<forall>v \<in> set vs. v < length (visited st)"
    "length (pi st) = length (visited st)"
  shows "\<exists>new. bfs_for_post st u vs Q st' Q' new"
  using assms
proof (induction vs arbitrary: st Q)
  case Nil
  then have "bfs_for_post st u [] Q st' Q' []"
    by (simp add: bfs_for_post_def net_same_def)
  then show ?case ..
next
  case (Cons v vs)
  show ?case
  proof (cases "visited st ! v \<or> cf st u v = 0")
    case True
    with Cons.prems have "bfs_for st u vs Q = (st', Q')" by simp
    from Cons.IH[OF this] Cons.prems(2,3)
    obtain new where p: "bfs_for_post st u vs Q st' Q' new" by auto
    have "bfs_for_post st u (v # vs) Q st' Q' new"
      unfolding bfs_for_post_def
    proof (intro conjI)
      show "\<forall>w \<in> set (v # vs). cf st u w \<noteq> 0 \<longrightarrow> visited st' ! w"
        using p True unfolding bfs_for_post_def by auto
      show "\<forall>w \<in> set new. w \<in> set (v # vs) \<and> \<not> visited st ! w \<and> visited st' ! w \<and>
        pi st' ! w = Some u \<and> cf st u w \<noteq> 0"
        using p unfolding bfs_for_post_def by auto
    qed (use p in \<open>simp_all add: bfs_for_post_def\<close>)
    then show ?thesis ..
  next
    case False
    let ?st1 = "st\<lparr>visited := (visited st)[v := True], pi := (pi st)[v := Some u]\<rparr>"
    from False Cons.prems have b: "bfs_for ?st1 u vs (Q @ [v]) = (st', Q')" by simp
    have vl: "v < length (visited st)" "v < length (pi st)" using Cons.prems(2,3) by simp_all
    from Cons.IH[OF b] Cons.prems(2,3)
    obtain new where p: "bfs_for_post ?st1 u vs (Q @ [v]) st' Q' new" by auto
    have cfeq: "\<And>x y. cf ?st1 x y = cf st x y" by (simp add: cf_def)
    have v1: "visited ?st1 ! v" "pi ?st1 ! v = Some u" using vl by simp_all
    have mono1: "visited ?st1 ! x \<and> pi ?st1 ! x = pi st ! x" if "visited st ! x" for x
    proof -
      from that False have "v \<noteq> x" by auto
      with that show ?thesis by (simp add: mark_mono)
    qed
    have keep: "\<And>x. visited ?st1 ! x \<Longrightarrow> visited st' ! x \<and> pi st' ! x = pi ?st1 ! x"
      using p unfolding bfs_for_post_def by blast
    have "bfs_for_post st u (v # vs) Q st' Q' (v # new)"
      unfolding bfs_for_post_def
    proof (intro conjI)
      show "net_same st st'" using p by (simp add: bfs_for_post_def net_same_def)
      show "length (visited st') = length (visited st)" using p by (simp add: bfs_for_post_def)
      show "length (pi st') = length (pi st)" using p by (simp add: bfs_for_post_def)
      show "Q' = Q @ v # new" using p by (simp add: bfs_for_post_def)
      show "\<forall>x. visited st ! x \<longrightarrow> visited st' ! x \<and> pi st' ! x = pi st ! x"
        using mono1 keep by metis
      show "\<forall>w \<in> set (v # new). w \<in> set (v # vs) \<and> \<not> visited st ! w \<and> visited st' ! w \<and>
        pi st' ! w = Some u \<and> cf st u w \<noteq> 0"
      proof
        fix w assume "w \<in> set (v # new)"
        then consider "w = v" | "w \<in> set new" by auto
        then show "w \<in> set (v # vs) \<and> \<not> visited st ! w \<and> visited st' ! w \<and>
          pi st' ! w = Some u \<and> cf st u w \<noteq> 0"
        proof cases
          case 1
          with False keep[OF v1(1)] v1(2) show ?thesis by simp
        next
          case 2
          with p have w: "w \<in> set vs" "\<not> visited ?st1 ! w" "visited st' ! w"
            "pi st' ! w = Some u" "cf ?st1 u w \<noteq> 0"
            unfolding bfs_for_post_def by blast+
          from w(2) mono1 have "\<not> visited st ! w" by blast
          with w show ?thesis by (simp add: cfeq)
        qed
      qed
      show "\<forall>x < length (visited st). visited st' ! x \<longrightarrow> visited st ! x \<or> x \<in> set (v # new)"
      proof (intro allI impI)
        fix x assume x: "x < length (visited st)" "visited st' ! x"
        with p have "visited ?st1 ! x \<or> x \<in> set new" unfolding bfs_for_post_def by simp
        then show "visited st ! x \<or> x \<in> set (v # new)"
          by (cases "x = v") (auto simp: nth_list_update)
      qed
      show "\<forall>w \<in> set (v # vs). cf st u w \<noteq> 0 \<longrightarrow> visited st' ! w"
        using p keep[OF v1(1)] unfolding bfs_for_post_def by (auto simp: cfeq)
    qed
    then show ?thesis ..
  qed
qed

subsection \<open>The invariant of the queue loop\<close>

text \<open>A marked vertex that is no longer in the queue has all its neighbours of non-zero
  residual capacity marked.\<close>

definition bfs_closed :: "edmonds_karp \<Rightarrow> nat list \<Rightarrow> bool" where
  "bfs_closed st Q \<longleftrightarrow>
     (\<forall>x < n st. visited st ! x \<longrightarrow> x \<notin> set Q \<longrightarrow>
        (\<forall>y \<in> set (Gf st ! x). cf st x y \<noteq> 0 \<longrightarrow> visited st ! y))"

text \<open>Every marked vertex but \<open>s\<close> has a marked predecessor, over an edge of non-zero
  residual capacity, that was marked before it (\<open>rank\<close> orders the vertices by the time they
  were marked).\<close>

definition pi_tree :: "nat \<Rightarrow> edmonds_karp \<Rightarrow> (nat \<Rightarrow> nat) \<Rightarrow> bool" where
  "pi_tree s st rank \<longleftrightarrow>
     (\<forall>v < n st. visited st ! v \<longrightarrow> v \<noteq> s \<longrightarrow>
        (\<exists>p. pi st ! v = Some p \<and> p < n st \<and> visited st ! p \<and> cf st p v \<noteq> 0 \<and>
             rank p < rank v))"

definition bfs_inv :: "nat \<Rightarrow> edmonds_karp \<Rightarrow> nat list \<Rightarrow> bool" where
  "bfs_inv s st Q \<longleftrightarrow>
     wf_net st \<and> length (visited st) = n st \<and> length (pi st) = n st \<and>
     s < n st \<and> visited st ! s \<and> (\<forall>v \<in> set Q. v < n st \<and> visited st ! v) \<and>
     bfs_closed st Q \<and> (\<exists>rank. pi_tree s st rank)"

lemma bfs_closedD:
  "bfs_closed st Q \<Longrightarrow> x < n st \<Longrightarrow> visited st ! x \<Longrightarrow> x \<notin> set Q \<Longrightarrow>
   y \<in> set (Gf st ! x) \<Longrightarrow> cf st x y \<noteq> 0 \<Longrightarrow> visited st ! y"
  unfolding bfs_closed_def by blast

lemma pi_treeD:
  "pi_tree s st rank \<Longrightarrow> v < n st \<Longrightarrow> visited st ! v \<Longrightarrow> v \<noteq> s \<Longrightarrow>
   \<exists>p. pi st ! v = Some p \<and> p < n st \<and> visited st ! p \<and> cf st p v \<noteq> 0 \<and> rank p < rank v"
  unfolding pi_tree_def by blast

lemma bfs_step:
  assumes inv: "bfs_inv s st (u # Q0)" and b: "bfs_for st u (Gf st ! u) Q0 = (st', Q')"
  shows "bfs_inv s st' Q' \<and> net_same st st' \<and>
    (card (unmarked (visited st')) < card (unmarked (visited st)) \<or>
     card (unmarked (visited st')) = card (unmarked (visited st)) \<and> length Q' < length (u # Q0))"
proof -
  from inv have w: "wf_net st" and lv: "length (visited st) = n st"
    and lp: "length (pi st) = n st" and sn: "s < n st" and vs: "visited st ! s"
    and q: "\<forall>v \<in> set (u # Q0). v < n st \<and> visited st ! v"
    and cl: "bfs_closed st (u # Q0)"
    by (simp_all add: bfs_inv_def)
  from inv obtain rank where tr: "pi_tree s st rank" unfolding bfs_inv_def by blast
  from q have un: "u < n st" and uv: "visited st ! u" by simp_all
  have adj: "\<forall>v \<in> set (Gf st ! u). v < length (visited st)"
    using wf_net_adj[OF w un] lv by simp
  from bfs_for_correct[OF b adj] lp lv
  obtain new where post: "bfs_for_post st u (Gf st ! u) Q0 st' Q' new" by auto
  from post have same: "net_same st st'" and lv': "length (visited st') = length (visited st)"
    and lp': "length (pi st') = length (pi st)" and Q': "Q' = Q0 @ new"
    by (simp_all add: bfs_for_post_def)
  from post have mono: "\<And>x. visited st ! x \<Longrightarrow> visited st' ! x"
    and pikeep: "\<And>x. visited st ! x \<Longrightarrow> pi st' ! x = pi st ! x"
    unfolding bfs_for_post_def by blast+
  from post have new: "\<And>v. v \<in> set new \<Longrightarrow> v \<in> set (Gf st ! u) \<and> \<not> visited st ! v \<and>
      visited st' ! v \<and> pi st' ! v = Some u \<and> cf st u v \<noteq> 0"
    unfolding bfs_for_post_def by blast
  from post have old: "\<And>x. x < n st \<Longrightarrow> visited st' ! x \<Longrightarrow> visited st ! x \<or> x \<in> set new"
    unfolding bfs_for_post_def using lv by simp
  from post have nb: "\<And>v. v \<in> set (Gf st ! u) \<Longrightarrow> cf st u v \<noteq> 0 \<Longrightarrow> visited st' ! v"
    unfolding bfs_for_post_def by blast
  from same have e: "c st' = c st" "f st' = f st" "Gf st' = Gf st" "n st' = n st"
    by (simp_all add: net_same_def)
  have cfeq: "\<And>x y. cf st' x y = cf st x y" using e by (simp add: cf_def)
  have w': "wf_net st'" using w e by (rule wf_net_same)
  have q': "\<forall>v \<in> set Q'. v < n st' \<and> visited st' ! v"
  proof
    fix v assume "v \<in> set Q'"
    then consider "v \<in> set Q0" | "v \<in> set new" unfolding Q' by auto
    then show "v < n st' \<and> visited st' ! v"
    proof cases
      case 1
      with q mono e(4) show ?thesis by simp
    next
      case 2
      with new[OF 2] wf_net_adj[OF w un] e(4) show ?thesis by simp
    qed
  qed
  have cl': "bfs_closed st' Q'"
    unfolding bfs_closed_def
  proof (intro allI impI ballI)
    fix x y assume x: "x < n st'" "visited st' ! x" "x \<notin> set Q'"
      and y: "y \<in> set (Gf st' ! x)" "cf st' x y \<noteq> 0"
    from x(3) have xn: "x \<notin> set new" "x \<notin> set Q0" unfolding Q' by simp_all
    from old[of x] x(1,2) xn(1) e(4) have xv: "visited st ! x" by auto
    show "visited st' ! y"
    proof (cases "x = u")
      case True
      with y nb show ?thesis by (simp add: e cfeq)
    next
      case False
      with xn(2) have "x \<notin> set (u # Q0)" by simp
      with cl x(1) xv y have "visited st ! y"
        by (intro bfs_closedD[of st "u # Q0" x y]) (simp_all add: e cfeq)
      then show ?thesis by (rule mono)
    qed
  qed
  have unew: "u \<notin> set new" using new uv by blast
  let ?rank = "\<lambda>x. if x \<in> set new then Suc (rank u) else rank x"
  have tr': "pi_tree s st' ?rank"
    unfolding pi_tree_def
  proof (intro allI impI)
    fix v assume v: "v < n st'" "visited st' ! v" "v \<noteq> s"
    show "\<exists>p. pi st' ! v = Some p \<and> p < n st' \<and> visited st' ! p \<and> cf st' p v \<noteq> 0 \<and>
      ?rank p < ?rank v"
    proof (cases "v \<in> set new")
      case True
      from new[OF True] un uv unew True
      have "pi st' ! v = Some u \<and> u < n st' \<and> visited st' ! u \<and> cf st' u v \<noteq> 0 \<and>
        ?rank u < ?rank v" by (simp add: e cfeq mono)
      then show ?thesis ..
    next
      case False
      with old[of v] v(1,2) e(4) have vv: "visited st ! v" by auto
      from pi_treeD[OF tr _ vv v(3)] v(1) e(4)
      obtain p where p: "pi st ! v = Some p" "p < n st" "visited st ! p" "cf st p v \<noteq> 0"
        "rank p < rank v" by auto
      have "p \<notin> set new" using new p(3) by blast
      with p False pikeep[OF vv] mono[OF p(3)]
      have "pi st' ! v = Some p \<and> p < n st' \<and> visited st' ! p \<and> cf st' p v \<noteq> 0 \<and>
        ?rank p < ?rank v" by (simp add: e cfeq)
      then show ?thesis ..
    qed
  qed
  have inv': "bfs_inv s st' Q'"
    unfolding bfs_inv_def using w' lv' lp' lv lp e(4) sn mono[OF vs] q' cl' tr' by auto
  have le: "card (unmarked (visited st')) \<le> card (unmarked (visited st))"
    using lv' mono by (rule unmarked_mono)
  have dec: "card (unmarked (visited st')) < card (unmarked (visited st)) \<or>
     card (unmarked (visited st')) = card (unmarked (visited st)) \<and> length Q' < length (u # Q0)"
  proof (cases "new = []")
    case True
    with Q' le show ?thesis by auto
  next
    case False
    then obtain v where v: "v \<in> set new" by (cases new) auto
    from new[OF v] wf_net_adj[OF w un] lv lv'
    have "v \<in> unmarked (visited st)" "v \<notin> unmarked (visited st')"
      by (simp_all add: unmarked_def)
    moreover have "unmarked (visited st') \<subseteq> unmarked (visited st)"
      using lv' mono by (auto simp: unmarked_def)
    ultimately have "unmarked (visited st') \<subset> unmarked (visited st)" by blast
    then have "card (unmarked (visited st')) < card (unmarked (visited st))"
      by (intro psubset_card_mono) simp_all
    then show ?thesis by simp
  qed
  from inv' same dec show ?thesis by simp
qed

lemma bfs_while_returns:
  assumes "bfs_inv s st Q"
  shows "\<exists>st'. bfs_while st Q = Some st' \<and> net_same st st' \<and> bfs_inv s st' []"
proof -
  let ?m = "\<lambda>x :: edmonds_karp \<times> nat list. (card (unmarked (visited (fst x))), length (snd x))"
  have "wf (inv_image (less_than <*lex*> less_than) ?m)"
    by (intro wf_inv_image wf_lex_prod wf_less_than)
  then have "bfs_inv s (fst x) (snd x) \<longrightarrow>
      (\<exists>st'. bfs_while (fst x) (snd x) = Some st' \<and> net_same (fst x) st' \<and> bfs_inv s st' [])"
    for x
  proof (induction x rule: wf_induct_rule)
    case (less x)
    obtain st Q where x: "x = (st, Q)" by (cases x)
    show ?case
    proof
      assume "bfs_inv s (fst x) (snd x)"
      then have inv: "bfs_inv s st Q" by (simp add: x)
      show "\<exists>st'. bfs_while (fst x) (snd x) = Some st' \<and> net_same (fst x) st' \<and> bfs_inv s st' []"
      proof (cases Q)
        case Nil
        then have "bfs_while st Q = Some st" by (subst bfs_while.simps) simp
        with inv Nil show ?thesis by (auto simp: x net_same_refl)
      next
        case (Cons u Q0)
        obtain st1 Q1 where b: "bfs_for st u (Gf st ! u) Q0 = (st1, Q1)"
          by (cases "bfs_for st u (Gf st ! u) Q0")
        from bfs_step[OF inv[unfolded Cons] b]
        have inv1: "bfs_inv s st1 Q1" and same1: "net_same st st1"
          and dec: "card (unmarked (visited st1)) < card (unmarked (visited st)) \<or>
            card (unmarked (visited st1)) = card (unmarked (visited st)) \<and>
            length Q1 < length (u # Q0)" by simp_all
        from dec have "((st1, Q1), x) \<in> inv_image (less_than <*lex*> less_than) ?m"
          by (auto simp: x Cons)
        from less.IH[OF this] inv1
        obtain st' where r: "bfs_while st1 Q1 = Some st'" "net_same st1 st'" "bfs_inv s st' []"
          by auto
        have "bfs_while st Q = Some st'"
          using Cons b r(1) by (subst bfs_while.simps) simp
        with r(3) net_same_trans[OF same1 r(2)] show ?thesis by (auto simp: x)
      qed
    qed
  qed
  from this[of "(st, Q)"] assms show ?thesis by simp
qed

lemma only_source_marked: "v < k \<Longrightarrow> (replicate k False)[s := True] ! v \<Longrightarrow> v = s"
  by (cases "v = s") simp_all

lemma bfs_returns:
  assumes "wf_net st" "s < n st"
  shows "\<exists>st'. bfs st s t = Some (st', visited st' ! t) \<and> net_same st st' \<and> bfs_inv s st' []"
proof -
  let ?st2 = "st\<lparr>pi := (replicate (n st) None)[s := None],
                 visited := (replicate (n st) False)[s := True]\<rparr>"
  have w2: "wf_net ?st2" using assms(1) by (rule wf_net_same) simp_all
  have cl: "bfs_closed ?st2 [s]"
    unfolding bfs_closed_def by (auto dest: only_source_marked)
  have tr: "pi_tree s ?st2 (\<lambda>x. 0)"
    unfolding pi_tree_def by (auto dest: only_source_marked)
  have "bfs_inv s ?st2 [s]"
    unfolding bfs_inv_def using w2 assms(2) cl tr by auto
  from bfs_while_returns[OF this]
  obtain st' where r: "bfs_while ?st2 [s] = Some st'" "net_same ?st2 st'" "bfs_inv s st' []"
    by blast
  have "bfs st s t = Some (st', visited st' ! t)"
    using r(1) by (simp add: bfs_def Let_def)
  moreover have "net_same st st'" using r(2) by (simp add: net_same_def)
  ultimately show ?thesis using r(3) by blast
qed

subsection \<open>The predecessors lead back to the source\<close>

text \<open>\<open>pi_chain P p\<close>: each vertex of \<open>p\<close> but the first has its predecessor in \<open>P\<close> just
  before it.\<close>

fun pi_chain :: "nat option list \<Rightarrow> nat list \<Rightarrow> bool" where
  "pi_chain P (x # y # p) = (P ! y = Some x \<and> pi_chain P (y # p))"
| "pi_chain P [x] = True"
| "pi_chain P [] = True"

lemma pi_chain_snoc:
  "p \<noteq> [] \<Longrightarrow> pi_chain P (p @ [v]) = (P ! v = Some (last p) \<and> pi_chain P p)"
  by (induction P p rule: pi_chain.induct) auto

lemma path_le_snoc:
  "p \<noteq> [] \<Longrightarrow> path_le st d (p @ [v]) = (d \<le> cf st (last p) v \<and> path_le st d p)"
  by (induction st d p rule: path_le.induct) auto

lemma aug_path_snoc:
  "p \<noteq> [] \<Longrightarrow> aug_path d (p @ [v]) st = aug_path d p (push d (last p) v st)"
  by (induction d p st rule: aug_path.induct) auto

lemma pi_tree_path:
  assumes "pi_tree s st rank" "capb st" "s < n st"
  shows "v < n st \<Longrightarrow> visited st ! v \<Longrightarrow>
    \<exists>p. p \<noteq> [] \<and> hd p = s \<and> last p = v \<and> distinct p \<and>
        (\<forall>x \<in> set p. x < n st \<and> rank x \<le> rank v) \<and> pi_chain (pi st) p \<and> path_le st 1 p"
proof (induction "rank v" arbitrary: v rule: less_induct)
  case less
  show ?case
  proof (cases "v = s")
    case True
    then have "[s] \<noteq> [] \<and> hd [s] = s \<and> last [s] = v \<and> distinct [s] \<and>
        (\<forall>x \<in> set [s]. x < n st \<and> rank x \<le> rank v) \<and> pi_chain (pi st) [s] \<and> path_le st 1 [s]"
      using assms(3) by simp
    then show ?thesis by (rule exI)
  next
    case False
    from pi_treeD[OF assms(1) less.prems False]
    obtain q where q: "pi st ! v = Some q" "q < n st" "visited st ! q" "cf st q v \<noteq> 0"
      "rank q < rank v" by blast
    from less.hyps[OF q(5) q(2,3)]
    obtain p where p: "p \<noteq> []" "hd p = s" "last p = q" "distinct p"
      "\<forall>x \<in> set p. x < n st \<and> rank x \<le> rank q" "pi_chain (pi st) p" "path_le st 1 p"
      by blast
    have "0 \<le> cf st q v" using assms(2) q(2) less.prems(1) by (rule capb_cf_nonneg)
    with q(4) have cf1: "1 \<le> cf st q v" by simp
    have vp: "v \<notin> set p" using p(5) q(5) by auto
    have "p @ [v] \<noteq> [] \<and> hd (p @ [v]) = s \<and> last (p @ [v]) = v \<and> distinct (p @ [v]) \<and>
        (\<forall>x \<in> set (p @ [v]). x < n st \<and> rank x \<le> rank v) \<and> pi_chain (pi st) (p @ [v]) \<and>
        path_le st 1 (p @ [v])"
      using p q(1,5) cf1 vp less.prems(1)
      by (auto simp: pi_chain_snoc path_le_snoc)
    then show ?thesis by (rule exI)
  qed
qed

subsection \<open>\<open>proc\<close> walks that path twice\<close>

lemma proc_min_path:
  assumes "pi_chain (pi st) p" "p \<noteq> []" "hd p = s" "distinct p"
  shows "\<exists>r. proc_min st s (last p) a = Some r \<and> r \<le> a \<and> path_le st r p \<and>
             (0 < a \<longrightarrow> path_le st 1 p \<longrightarrow> 0 < r)"
  using assms
proof (induction p arbitrary: a rule: rev_induct)
  case Nil
  then show ?case by simp
next
  case (snoc v q)
  show ?case
  proof (cases "q = []")
    case True
    with snoc.prems have "v = s" by simp
    then have "proc_min st s v a = Some a" by (subst proc_min.simps) simp
    with True show ?thesis by simp
  next
    case False
    with snoc.prems have q: "pi_chain (pi st) q" "hd q = s" "distinct q" "v \<notin> set q"
      and pv: "pi st ! v = Some (last q)" by (simp_all add: pi_chain_snoc)
    from False q(2,4) have vs: "v \<noteq> s" by (cases q) auto
    let ?a = "min a (cf st (last q) v)"
    from snoc.IH[OF q(1) False q(2,3), of ?a]
    obtain r where r: "proc_min st s (last q) ?a = Some r" "r \<le> ?a" "path_le st r q"
      "0 < ?a \<longrightarrow> path_le st 1 q \<longrightarrow> 0 < r" by blast
    have "proc_min st s v a = Some r"
      using vs pv r(1) by (subst proc_min.simps) simp
    moreover have "0 < a \<longrightarrow> path_le st 1 (q @ [v]) \<longrightarrow> 0 < r"
      using r(4) False by (simp add: path_le_snoc)
    ultimately show ?thesis using r(2,3) False by (simp add: path_le_snoc)
  qed
qed

lemma proc_add_path:
  assumes "pi_chain (pi st) p" "p \<noteq> []" "hd p = s" "distinct p"
  shows "proc_add st s (last p) d = Some (aug_path d p st)"
  using assms
proof (induction p arbitrary: st rule: rev_induct)
  case Nil
  then show ?case by simp
next
  case (snoc v q)
  show ?case
  proof (cases "q = []")
    case True
    with snoc.prems have "v = s" by simp
    then have "proc_add st s v d = Some st" by (subst proc_add.simps) simp
    with True show ?thesis by simp
  next
    case False
    with snoc.prems have q: "pi_chain (pi st) q" "hd q = s" "distinct q" "v \<notin> set q"
      and pv: "pi st ! v = Some (last q)" by (simp_all add: pi_chain_snoc)
    from False q(2,4) have vs: "v \<noteq> s" by (cases q) auto
    let ?st1 = "push d (last q) v st"
    have "pi_chain (pi ?st1) q" using q(1) by simp
    from snoc.IH[OF this False q(2,3)]
    have "proc_add ?st1 s (last q) d = Some (aug_path d q ?st1)" .
    then have "proc_add st s v d = Some (aug_path d q ?st1)"
      using vs pv by (subst proc_add.simps) (simp add: push_def)
    with False show ?thesis by (simp add: aug_path_snoc)
  qed
qed

lemma proc_correct:
  assumes "bfs_inv s st []" "capb st" "t < n st" "visited st ! t"
  shows "\<exists>p r. proc st s t = Some (aug_path r p st, r) \<and> 0 < r \<and> p \<noteq> [] \<and> hd p = s \<and>
           last p = t \<and> distinct p \<and> (\<forall>x \<in> set p. x < n st) \<and> path_le st r p"
proof -
  from assms(1) obtain rank where tr: "pi_tree s st rank" and sn: "s < n st"
    unfolding bfs_inv_def by blast
  from pi_tree_path[OF tr assms(2) sn assms(3,4)]
  obtain p where p: "p \<noteq> []" "hd p = s" "last p = t" "distinct p"
    "\<forall>x \<in> set p. x < n st \<and> rank x \<le> rank t" "pi_chain (pi st) p" "path_le st 1 p"
    by blast
  from proc_min_path[OF p(6,1,2,4), of limits_inf]
  obtain r where r: "proc_min st s t limits_inf = Some r" "path_le st r p"
    "0 < limits_inf \<longrightarrow> path_le st 1 p \<longrightarrow> 0 < r" unfolding p(3) by blast
  from r(3) p(7) have r0: "0 < r" by (simp add: limits_inf_def)
  from proc_add_path[OF p(6,1,2,4), of r]
  have "proc_add st s t r = Some (aug_path r p st)" unfolding p(3) .
  with r(1) have "proc st s t = Some (aug_path r p st, r)" by (simp add: proc_def)
  with r0 p(1-5) r(2) show ?thesis by blast
qed

lemma bfs_unreachable:
  assumes "bfs_inv s st []" "adj_ok st" "\<not> visited st ! t"
  shows "(s, t) \<notin> (res_edges st)\<^sup>*"
proof -
  from assms(1) have sn: "s < n st" and vs: "visited st ! s" and cl: "bfs_closed st []"
    by (simp_all add: bfs_inv_def)
  let ?V = "{x. x < n st \<and> visited st ! x}"
  show ?thesis
  proof (rule closed_unreachable[where V = ?V])
    show "s \<in> ?V" using sn vs by simp
    show "t \<notin> ?V" using assms(3) by simp
  next
    fix x y assume x: "x \<in> ?V" and e: "(x, y) \<in> res_edges st"
    from e have xy: "x < n st" "y < n st" "cf st x y \<noteq> 0" by (auto simp: res_edges_def)
    with assms(2) have y: "y \<in> set (Gf st ! x)" by (intro adj_edge)
    from x have "visited st ! x" by simp
    with cl xy(1) have "visited st ! y" using _ y xy(3) by (rule bfs_closedD) simp
    with xy(2) show "y \<in> ?V" by simp
  qed
qed

subsection \<open>One round of the Edmonds-Karp loop\<close>

lemma ek_round:
  assumes "net_inv st" "s < n st" "t < n st"
  shows "\<exists>st1. bfs st s t = Some (st1, visited st1 ! t) \<and> net_same st st1 \<and>
     (\<not> visited st1 ! t \<longrightarrow> (s, t) \<notin> (res_edges st1)\<^sup>*) \<and>
     (visited st1 ! t \<longrightarrow>
        (\<exists>st2 r. proc st1 s t = Some (st2, r) \<and> 0 < r \<and> net_inv st2 \<and>
           c st2 = c st \<and> Gf st2 = Gf st \<and> n st2 = n st \<and>
           (\<forall>x < n st. net_out st2 x =
              net_out st x + (if x = s then r else 0) - (if x = t then r else 0))))"
proof -
  from bfs_returns[OF net_invD(1)[OF assms(1)] assms(2), of t]
  obtain st1 where b: "bfs st s t = Some (st1, visited st1 ! t)" and same: "net_same st st1"
    and bi: "bfs_inv s st1 []" by blast
  have inv1: "net_inv st1" using same assms(1) by (rule net_inv_same)
  from same have e: "c st1 = c st" "Gf st1 = Gf st" "n st1 = n st" by (simp_all add: net_same_def)
  have un: "(s, t) \<notin> (res_edges st1)\<^sup>*" if "\<not> visited st1 ! t"
    using bi net_invD(5)[OF inv1] that by (rule bfs_unreachable)
  have pr: "\<exists>st2 r. proc st1 s t = Some (st2, r) \<and> 0 < r \<and> net_inv st2 \<and>
           c st2 = c st \<and> Gf st2 = Gf st \<and> n st2 = n st \<and>
           (\<forall>x < n st. net_out st2 x =
              net_out st x + (if x = s then r else 0) - (if x = t then r else 0))"
    if vt: "visited st1 ! t"
  proof -
    from proc_correct[OF bi net_invD(3)[OF inv1] _ vt] assms(3) e(3)
    obtain p r where p: "proc st1 s t = Some (aug_path r p st1, r)" "0 < r" "p \<noteq> []"
      "hd p = s" "last p = t" "distinct p" "\<forall>x \<in> set p. x < n st1" "path_le st1 r p"
      by auto
    have i2: "net_inv (aug_path r p st1)" using inv1 p(6,7,2,8) by (rule net_inv_aug_path)
    have o: "net_out (aug_path r p st1) x =
        net_out st x + (if x = s then r else 0) - (if x = t then r else 0)" if "x < n st" for x
    proof -
      have "net_out (aug_path r p st1) x =
          net_out st1 x + (if x = hd p then r else 0) - (if x = last p then r else 0)"
        using net_invD(1)[OF inv1] p(7,3) that e(3) by (intro aug_path_net_out) simp_all
      then show ?thesis using p(4,5) net_out_same[OF same] by simp
    qed
    from p(1,2) i2 o e show ?thesis by simp
  qed
  from b same un pr show ?thesis by blast
qed

lemma ek_while_returns:
  assumes "net_inv st" "s < n st" "t < n st" "s \<noteq> t"
  shows "\<exists>st' v. ek_while st s t a = Some (st', v) \<and> run_post st s t a st' v"
  using assms
proof (induction "nat (sum_list (c st ! s) - net_out st s)" arbitrary: st a rule: less_induct)
  case less
  from ek_round[OF less.prems(1-3)]
  obtain st1 where b: "bfs st s t = Some (st1, visited st1 ! t)" and same: "net_same st st1"
    and un: "\<not> visited st1 ! t \<longrightarrow> (s, t) \<notin> (res_edges st1)\<^sup>*"
    and pr: "visited st1 ! t \<longrightarrow>
        (\<exists>st2 r. proc st1 s t = Some (st2, r) \<and> 0 < r \<and> net_inv st2 \<and>
           c st2 = c st \<and> Gf st2 = Gf st \<and> n st2 = n st \<and>
           (\<forall>x < n st. net_out st2 x =
              net_out st x + (if x = s then r else 0) - (if x = t then r else 0)))"
    by blast
  show ?case
  proof (cases "visited st1 ! t")
    case False
    with b have "ek_while st s t a = Some (st1, a)" by (subst ek_while.simps) simp
    moreover have "net_inv st1" using same less.prems(1) by (rule net_inv_same)
    then have "run_post st s t a st1 a"
      using same un False net_out_same[OF same] by (simp add: run_post_def net_same_def)
    ultimately show ?thesis by blast
  next
    case True
    with pr obtain st2 r where p: "proc st1 s t = Some (st2, r)" and r: "0 < r"
      and inv2: "net_inv st2" and c2: "c st2 = c st" and g2: "Gf st2 = Gf st"
      and n2: "n st2 = n st"
      and out: "\<forall>x < n st. net_out st2 x =
              net_out st x + (if x = s then r else 0) - (if x = t then r else 0)"
      by blast
    from out have out_s: "net_out st2 s = net_out st s + r" using less.prems(2,4) by simp
    have "net_out st2 s \<le> sum_list (c st2 ! s)"
      using net_invD(1,3)[OF inv2] less.prems(2) n2 by (intro net_out_le_capacity) simp_all
    with out_s r c2
    have dec: "nat (sum_list (c st2 ! s) - net_out st2 s) < nat (sum_list (c st ! s) - net_out st s)"
      by simp
    from less.hyps[OF dec inv2 _ _ less.prems(4), of "a + r"] less.prems(2,3) n2
    obtain st' v where w: "ek_while st2 s t (a + r) = Some (st', v)"
      and post: "run_post st2 s t (a + r) st' v" by auto
    have "ek_while st s t a = Some (st', v)"
      using b True p w by (subst ek_while.simps) simp
    moreover have "run_post st s t a st' v"
      using post out out_s n2 c2 g2 less.prems(2,3) unfolding run_post_def by auto
    ultimately show ?thesis by blast
  qed
qed

section \<open>Engines built from a graph\<close>

text \<open>Valid input: every edge has its end points among the \<open>length G\<close> vertices, is no
  self-loop, has a non-negative capacity, and no edge of the graph runs in the opposite
  direction.\<close>

definition valid_graph :: "graph_t \<Rightarrow> bool" where
  "valid_graph G \<longleftrightarrow>
     (\<forall>e \<in> set (concat G).
        src e < length G \<and> dst e < length G \<and> src e \<noteq> dst e \<and> 0 \<le> ecap e \<and>
        (\<forall>e' \<in> set (concat G). \<not> (src e' = dst e \<and> dst e' = src e)))"

text \<open>\<open>(u, v)\<close> is an original edge of \<open>G\<close>.\<close>

definition original :: "graph_t \<Rightarrow> nat \<Rightarrow> nat \<Rightarrow> bool" where
  "original G u v \<longleftrightarrow> (\<exists>e \<in> set (concat G). src e = u \<and> dst e = v)"

text \<open>What the constructor loop maintains.\<close>

definition build_inv :: "'a net_scheme \<Rightarrow> bool" where
  "build_inv st \<longleftrightarrow>
     wf_net st \<and> adj_ok st \<and> hist st = [] \<and>
     (\<forall>x < n st. \<forall>y < n st. f st ! x ! y = 0 \<and> 0 \<le> c st ! x ! y)"

lemma replicate2_nth: "x < k \<Longrightarrow> y < k \<Longrightarrow> replicate k (replicate k (0::int)) ! x ! y = 0"
  by simp

lemma build_inv_ff_init: "build_inv (ford_fulkerson_init k)"
  unfolding build_inv_def adj_ok_def
  using wf_ford_fulkerson_init[of k] by (simp add: ford_fulkerson_init_def)

lemma build_inv_ek_init: "build_inv (edmonds_karp_init k)"
  unfolding build_inv_def adj_ok_def
  using wf_edmonds_karp_init[of k] by (simp add: edmonds_karp_init_def)

lemma adj_ok_add_edge:
  assumes "wf_net st" "adj_ok st" "u < n st" "v < n st"
  shows "adj_ok (add_edge u v cap st)"
proof -
  let ?st = "add_edge u v cap st"
  have G: "Gf ?st ! x = Gf st ! x @ (if x = u then [v] else []) @ (if x = v then [u] else [])"
    if "x < n st" for x using assms(1,3,4) that by (rule add_edge_Gf_nth)
  have 1: "c ?st ! x ! y = 0 \<and> f ?st ! x ! y = 0"
    if xy: "x < n st" "y < n st" "y \<notin> set (Gf ?st ! x)" for x y
  proof -
    from xy(3)[unfolded G[OF xy(1)]] have ny: "y \<notin> set (Gf st ! x)"
      and n1: "\<not> (x = u \<and> y = v)" and n2: "\<not> (x = v \<and> y = u)" by auto
    from assms(2) xy(1,2) ny have 0: "c st ! x ! y = 0 \<and> f st ! x ! y = 0"
      unfolding adj_ok_def by blast
    have ceq: "c ?st ! x ! y =
        (if x = v \<and> y = u then 0 else if x = u \<and> y = v then cap else c st ! x ! y)"
      using assms(1,3,4) xy(1) by (rule add_edge_c_nth)
    have feq: "f ?st ! x ! y =
        (if x = v \<and> y = u then 0 else if x = u \<and> y = v then 0 else f st ! x ! y)"
      using assms(1,3,4) xy(1) by (rule add_edge_f_nth)
    show ?thesis unfolding ceq feq if_not_P[OF n1] if_not_P[OF n2] using 0 .
  qed
  have 2: "x \<in> set (Gf ?st ! y)" if xy: "x < n st" "y \<in> set (Gf ?st ! x)" for x y
  proof -
    have mB: "y \<in> set (if x = u then [v] else []) \<Longrightarrow> x = u \<and> y = v"
      by (cases "x = u") simp_all
    have mC: "y \<in> set (if x = v then [u] else []) \<Longrightarrow> x = v \<and> y = u"
      by (cases "x = v") simp_all
    have "y \<in> set (Gf st ! x) \<or> y \<in> set (if x = u then [v] else []) \<or>
        y \<in> set (if x = v then [u] else [])"
      using xy(2)[unfolded G[OF xy(1)]] by (simp only: set_append Un_iff)
    then have m: "y \<in> set (Gf st ! x) \<or> (x = u \<and> y = v) \<or> (x = v \<and> y = u)"
    proof (elim disjE)
      assume "y \<in> set (Gf st ! x)"
      then show ?thesis by (rule disjI1)
    next
      assume "y \<in> set (if x = u then [v] else [])"
      from mB[OF this] show ?thesis by (intro disjI2 disjI1)
    next
      assume "y \<in> set (if x = v then [u] else [])"
      from mC[OF this] show ?thesis by (intro disjI2)
    qed
    show ?thesis
    proof (cases "y \<in> set (Gf st ! x)")
      case True
      have "x \<in> set (Gf st ! y)" using assms(2) xy(1) True by (rule adj_sym)
      moreover have yn: "y < n st" using wf_net_adj[OF assms(1) xy(1) True] .
      ultimately show ?thesis unfolding G[OF yn] by simp
    next
      case False
      with m have "(x = u \<and> y = v) \<or> (x = v \<and> y = u)" by blast
      then show ?thesis
      proof
        assume a: "x = u \<and> y = v"
        have "u \<in> set (Gf ?st ! v)" unfolding G[OF assms(4)] by simp
        with a show ?thesis by simp
      next
        assume a: "x = v \<and> y = u"
        have "v \<in> set (Gf ?st ! u)" unfolding G[OF assms(3)] by simp
        with a show ?thesis by simp
      qed
    qed
  qed
  from 1 2 show ?thesis unfolding adj_ok_def by simp
qed

lemma build_inv_add_edge:
  assumes "build_inv st" "u < n st" "v < n st" "0 \<le> cap"
  shows "build_inv (add_edge u v cap st)"
proof -
  let ?st = "add_edge u v cap st"
  from assms(1) have w: "wf_net st" and a: "adj_ok st" and h: "hist st = []"
    and z: "\<And>x y. x < n st \<Longrightarrow> y < n st \<Longrightarrow> f st ! x ! y = 0 \<and> 0 \<le> c st ! x ! y"
    unfolding build_inv_def by blast+
  have w': "wf_net ?st" using w assms(2,3) by (rule wf_add_edge)
  have a': "adj_ok ?st" using w a assms(2,3) by (rule adj_ok_add_edge)
  have z': "f ?st ! x ! y = 0 \<and> 0 \<le> c ?st ! x ! y" if xy: "x < n st" "y < n st" for x y
  proof -
    have ceq: "c ?st ! x ! y =
        (if x = v \<and> y = u then 0 else if x = u \<and> y = v then cap else c st ! x ! y)"
      using w assms(2,3) xy(1) by (rule add_edge_c_nth)
    have feq: "f ?st ! x ! y =
        (if x = v \<and> y = u then 0 else if x = u \<and> y = v then 0 else f st ! x ! y)"
      using w assms(2,3) xy(1) by (rule add_edge_f_nth)
    have fz: "(if x = v \<and> y = u then 0 else if x = u \<and> y = v then 0 else f st ! x ! y) = 0"
      using z[OF xy] by simp
    have cz: "0 \<le> (if x = v \<and> y = u then 0 else if x = u \<and> y = v then cap else c st ! x ! y)"
      using z[OF xy] assms(4) by simp
    show ?thesis unfolding ceq feq using fz cz by (rule conjI)
  qed
  from w' a' h z' show ?thesis unfolding build_inv_def by simp
qed

text \<open>The loop of the constructors, for either engine.\<close>

definition add_edges :: "edge list \<Rightarrow> 'a net_scheme \<Rightarrow> 'a net_scheme" where
  "add_edges es st = fold (\<lambda>e. add_edge (src e) (dst e) (ecap e)) es st"

lemma add_edges_simps [simp]:
  "add_edges [] st = st"
  "add_edges (e # es) st = add_edges es (add_edge (src e) (dst e) (ecap e) st)"
  "add_edges (es @ [e]) st = add_edge (src e) (dst e) (ecap e) (add_edges es st)"
  by (simp_all add: add_edges_def)

lemma n_add_edges [simp]: "n (add_edges es st) = n st"
  by (induction es arbitrary: st) simp_all

lemma c_add_edges: "c st1 = c st2 \<Longrightarrow> c (add_edges es st1) = c (add_edges es st2)"
  by (induction es arbitrary: st1 st2) simp_all

lemma build_inv_add_edges:
  assumes "build_inv st" "\<forall>e \<in> set es. src e < n st \<and> dst e < n st \<and> 0 \<le> ecap e"
  shows "build_inv (add_edges es st)"
  using assms
proof (induction es arbitrary: st)
  case Nil
  then show ?case by simp
next
  case (Cons e es)
  have "build_inv (add_edge (src e) (dst e) (ecap e) st)"
    using Cons.prems by (intro build_inv_add_edge) simp_all
  then show ?case using Cons.prems(2) by (simp add: Cons.IH)
qed

lemma reverse_capacity_zero:
  assumes "wf_net st" "\<forall>e \<in> set es. src e < n st \<and> dst e < n st"
    "\<forall>e \<in> set es. \<forall>e' \<in> set es. \<not> (src e' = dst e \<and> dst e' = src e)" "e \<in> set es"
  shows "c (add_edges es st) ! dst e ! src e = 0"
  using assms(2-4)
proof (induction es rule: rev_induct)
  case Nil
  then show ?case by simp
next
  case (snoc e2 es)
  let ?st = "add_edges es st"
  have w: "wf_net ?st \<and> n ?st = n st"
    using snoc.prems(1)
  proof (induction es rule: rev_induct)
    case Nil
    then show ?case using assms(1) by simp
  next
    case (snoc a as)
    then show ?case by (simp add: wf_add_edge)
  qed
  have r: "src e2 < n ?st" "dst e2 < n ?st" "dst e < n ?st"
    using snoc.prems(1,3) w by auto
  have "c (add_edge (src e2) (dst e2) (ecap e2) ?st) ! dst e ! src e =
      (if dst e = dst e2 \<and> src e = src e2 then 0
       else if dst e = src e2 \<and> src e = dst e2 then ecap e2 else c ?st ! dst e ! src e)"
    using w r by (intro add_edge_c_nth) simp_all
  moreover have "\<not> (dst e = src e2 \<and> src e = dst e2)"
    using snoc.prems(2,3) by (metis in_set_conv_decomp)
  moreover have "c ?st ! dst e ! src e = 0" if "\<not> (dst e = dst e2 \<and> src e = src e2)"
  proof -
    from that snoc.prems(3) have "e \<in> set es" by auto
    with snoc.prems(1,2) show ?thesis by (intro snoc.IH) auto
  qed
  ultimately show ?case by auto
qed

lemma build_inv_net_inv:
  assumes "build_inv st"
  shows "net_inv st"
proof -
  from assms have w: "wf_net st" and a: "adj_ok st" and h: "hist st = []"
    and z: "\<And>x y. x < n st \<Longrightarrow> y < n st \<Longrightarrow> f st ! x ! y = 0 \<and> 0 \<le> c st ! x ! y"
    unfolding build_inv_def by blast+
  have "skew st" unfolding skew_def using z by simp
  moreover have "capb st" unfolding capb_def using z by simp
  moreover have "hist_ok st" unfolding hist_ok_def using h by simp
  ultimately show ?thesis using w a by (simp add: net_inv_def flow_inv_def)
qed

lemma build_inv_net_out:
  assumes "build_inv st" "x < n st"
  shows "net_out st x = 0"
proof -
  from assms(1) have w: "wf_net st"
    and z: "\<And>x y. x < n st \<Longrightarrow> y < n st \<Longrightarrow> f st ! x ! y = 0"
    unfolding build_inv_def by blast+
  have "net_out st x = (\<Sum>y < n st. f st ! x ! y)" using w assms(2) by (rule net_out_sum)
  also have "\<dots> = 0" using z[OF assms(2)] by simp
  finally show ?thesis .
qed

lemma ford_fulkerson_of_eq: "ford_fulkerson_of G = add_edges (concat G) (ford_fulkerson_init (length G))"
  by (simp add: ford_fulkerson_of_def add_edges_def)

lemma edmonds_karp_of_eq: "edmonds_karp_of G = add_edges (concat G) (edmonds_karp_init (length G))"
  by (simp add: edmonds_karp_of_def add_edges_def)

lemma n_engines [simp]:
  "n (ford_fulkerson_of G) = length G" "n (edmonds_karp_of G) = length G"
  by (simp_all add: ford_fulkerson_of_eq edmonds_karp_of_eq ford_fulkerson_init_def
      edmonds_karp_init_def)

lemma c_engines: "c (edmonds_karp_of G) = c (ford_fulkerson_of G)"
  unfolding ford_fulkerson_of_eq edmonds_karp_of_eq
  by (rule c_add_edges) (simp add: ford_fulkerson_init_def edmonds_karp_init_def)

lemma valid_graph_build:
  assumes "valid_graph G"
  shows "build_inv (ford_fulkerson_of G)" "build_inv (edmonds_karp_of G)"
proof -
  have 1: "\<forall>e \<in> set (concat G). src e < n (ford_fulkerson_init (length G)) \<and>
      dst e < n (ford_fulkerson_init (length G)) \<and> 0 \<le> ecap e"
    using assms unfolding valid_graph_def by (simp add: ford_fulkerson_init_def)
  have 2: "\<forall>e \<in> set (concat G). src e < n (edmonds_karp_init (length G)) \<and>
      dst e < n (edmonds_karp_init (length G)) \<and> 0 \<le> ecap e"
    using assms unfolding valid_graph_def by (simp add: edmonds_karp_init_def)
  show "build_inv (ford_fulkerson_of G)"
    unfolding ford_fulkerson_of_eq using build_inv_ff_init 1 by (rule build_inv_add_edges)
  show "build_inv (edmonds_karp_of G)"
    unfolding edmonds_karp_of_eq using build_inv_ek_init 2 by (rule build_inv_add_edges)
qed

lemma original_reverse_zero:
  assumes "valid_graph G" "original G u v"
  shows "c (ford_fulkerson_of G) ! v ! u = 0" "u < length G" "v < length G"
proof -
  from assms(2) obtain e where e: "e \<in> set (concat G)" "src e = u" "dst e = v"
    unfolding original_def by blast
  with assms(1) show "u < length G" "v < length G" unfolding valid_graph_def by auto
  have "c (add_edges (concat G) (ford_fulkerson_init (length G))) ! dst e ! src e = 0"
  proof (rule reverse_capacity_zero[OF wf_ford_fulkerson_init _ _ e(1)])
    show "\<forall>e \<in> set (concat G). src e < n (ford_fulkerson_init (length G)) \<and>
        dst e < n (ford_fulkerson_init (length G))"
      using assms(1) unfolding valid_graph_def by (simp add: ford_fulkerson_init_def)
    show "\<forall>e \<in> set (concat G). \<forall>e' \<in> set (concat G). \<not> (src e' = dst e \<and> dst e' = src e)"
      using assms(1) unfolding valid_graph_def by blast
  qed
  then show "c (ford_fulkerson_of G) ! v ! u = 0" using e by (simp add: ford_fulkerson_of_eq)
qed

section \<open>Flows and cuts\<close>

text \<open>Conservation at every vertex but \<open>s\<close> and \<open>t\<close>: the row of the skew-symmetric flow
  matrix sums to zero.\<close>

definition conserved :: "'a net_scheme \<Rightarrow> nat \<Rightarrow> nat \<Rightarrow> bool" where
  "conserved st s t \<longleftrightarrow> (\<forall>x < n st. x \<noteq> s \<longrightarrow> x \<noteq> t \<longrightarrow> net_out st x = 0)"

lemma conservedD: "conserved st s t \<Longrightarrow> x < n st \<Longrightarrow> x \<noteq> s \<Longrightarrow> x \<noteq> t \<Longrightarrow> net_out st x = 0"
  unfolding conserved_def by blast

lemma sum_skew_zero:
  fixes g :: "nat \<Rightarrow> nat \<Rightarrow> int"
  assumes "\<And>x y. x \<in> S \<Longrightarrow> y \<in> S \<Longrightarrow> g x y = - g y x"
  shows "(\<Sum>x \<in> S. \<Sum>y \<in> S. g x y) = 0"
proof -
  have "(\<Sum>x \<in> S. \<Sum>y \<in> S. g x y) = (\<Sum>x \<in> S. \<Sum>y \<in> S. - g y x)"
    by (intro sum.cong refl assms)
  also have "\<dots> = - (\<Sum>x \<in> S. \<Sum>y \<in> S. g y x)" by (simp add: sum_negf)
  also have "(\<Sum>x \<in> S. \<Sum>y \<in> S. g y x) = (\<Sum>x \<in> S. \<Sum>y \<in> S. g x y)" by (rule sum.swap)
  finally show ?thesis by simp
qed

lemma cut_value:
  fixes g :: "nat \<Rightarrow> nat \<Rightarrow> int"
  assumes "finite V" "S \<subseteq> V" "s \<in> S"
    "\<And>x y. x \<in> V \<Longrightarrow> y \<in> V \<Longrightarrow> g x y = - g y x"
    "\<And>x. x \<in> S \<Longrightarrow> x \<noteq> s \<Longrightarrow> (\<Sum>y \<in> V. g x y) = 0"
  shows "(\<Sum>y \<in> V. g s y) = (\<Sum>x \<in> S. \<Sum>y \<in> V - S. g x y)"
proof -
  have fS: "finite S" using assms(1,2) by (rule rev_finite_subset)
  have "(\<Sum>x \<in> S. \<Sum>y \<in> V. g x y) = (\<Sum>y \<in> V. g s y) + (\<Sum>x \<in> S - {s}. \<Sum>y \<in> V. g x y)"
    using fS assms(3) by (rule sum.remove)
  also have "(\<Sum>x \<in> S - {s}. \<Sum>y \<in> V. g x y) = 0"
    by (intro sum.neutral ballI assms(5)) simp_all
  finally have 1: "(\<Sum>x \<in> S. \<Sum>y \<in> V. g x y) = (\<Sum>y \<in> V. g s y)" by simp
  have "(\<Sum>y \<in> V. g x y) = (\<Sum>y \<in> V - S. g x y) + (\<Sum>y \<in> S. g x y)" for x
    using assms(2,1) by (rule sum.subset_diff)
  then have "(\<Sum>x \<in> S. \<Sum>y \<in> V. g x y) =
      (\<Sum>x \<in> S. \<Sum>y \<in> V - S. g x y) + (\<Sum>x \<in> S. \<Sum>y \<in> S. g x y)"
    by (simp add: sum.distrib)
  also have "(\<Sum>x \<in> S. \<Sum>y \<in> S. g x y) = 0"
    using assms(2,4) by (intro sum_skew_zero) blast
  finally show ?thesis using 1 by simp
qed

lemma flow_across_cut:
  assumes "wf_net st" "skew st" "conserved st s t" "S \<subseteq> {..<n st}" "s \<in> S" "t \<notin> S"
  shows "net_out st s = (\<Sum>x \<in> S. \<Sum>y \<in> {..<n st} - S. f st ! x ! y)"
proof -
  have sn: "s < n st" using assms(4,5) by auto
  have "(\<Sum>y \<in> {..<n st}. f st ! s ! y) = (\<Sum>x \<in> S. \<Sum>y \<in> {..<n st} - S. f st ! x ! y)"
  proof (rule cut_value[OF _ assms(4,5)])
    show "finite {..<n st}" by simp
  next
    fix x y assume "x \<in> {..<n st}" "y \<in> {..<n st}"
    then have "x < n st" "y < n st" by simp_all
    with assms(2) show "f st ! x ! y = - (f st ! y ! x)" by (rule skewD)
  next
    fix x assume x: "x \<in> S" "x \<noteq> s"
    with assms(4,6) have "x < n st" "x \<noteq> t" by auto
    with assms(1,3) x(2) show "(\<Sum>y \<in> {..<n st}. f st ! x ! y) = 0"
      using conservedD[of st s t x] net_out_sum[of st x] by simp
  qed
  then show ?thesis using assms(1) sn by (simp add: net_out_sum)
qed

text \<open>No flow over the same capacities has a greater value than one that leaves no
  path of positive residual capacity from \<open>s\<close> to \<open>t\<close>.\<close>

lemma maxflow_le:
  fixes st1 :: "'a net_scheme" and st2 :: "'b net_scheme"
  assumes a1: "wf_net st1" "skew st1" "capb st1" "conserved st1 s t"
      "(s, t) \<notin> (res_edges st1)\<^sup>*"
    and a2: "wf_net st2" "skew st2" "capb st2" "conserved st2 s t"
    and e: "c st2 = c st1" "n st2 = n st1" and sn: "s < n st1"
  shows "net_out st2 s \<le> net_out st1 s"
proof -
  let ?S = "{x. x < n st1 \<and> (s, x) \<in> (res_edges st1)\<^sup>*}"
  have S: "?S \<subseteq> {..<n st1}" "s \<in> ?S" "t \<notin> ?S" using sn a1(5) by auto
  have full: "f st1 ! x ! y = c st1 ! x ! y" if "x \<in> ?S" "y \<in> {..<n st1} - ?S" for x y
  proof -
    from that have xy: "x < n st1" "y < n st1" "(s, x) \<in> (res_edges st1)\<^sup>*"
      "(s, y) \<notin> (res_edges st1)\<^sup>*" by auto
    have "(x, y) \<notin> res_edges st1"
    proof
      assume "(x, y) \<in> res_edges st1"
      with xy(3) have "(s, y) \<in> (res_edges st1)\<^sup>*" by (rule rtrancl_into_rtrancl)
      with xy(4) show False by simp
    qed
    with xy(1,2) have "c st1 ! x ! y \<le> f st1 ! x ! y" by (simp add: res_edges_def cf_def)
    with capbD[OF a1(3) xy(1,2)] show ?thesis by simp
  qed
  have "net_out st2 s = (\<Sum>x \<in> ?S. \<Sum>y \<in> {..<n st2} - ?S. f st2 ! x ! y)"
    using a2(1,2,4) S unfolding e(2)[symmetric] by (intro flow_across_cut) simp_all
  also have "\<dots> \<le> (\<Sum>x \<in> ?S. \<Sum>y \<in> {..<n st2} - ?S. c st2 ! x ! y)"
  proof (intro sum_mono)
    fix x y assume "x \<in> ?S" "y \<in> {..<n st2} - ?S"
    then have "x < n st2" "y < n st2" using e(2) by auto
    with a2(3) show "f st2 ! x ! y \<le> c st2 ! x ! y" by (rule capbD)
  qed
  also have "\<dots> = (\<Sum>x \<in> ?S. \<Sum>y \<in> {..<n st1} - ?S. f st1 ! x ! y)"
    unfolding e by (intro sum.cong refl full[symmetric])
  also have "\<dots> = net_out st1 s"
    using a1(1,2,4) S by (intro flow_across_cut[symmetric])
  finally show ?thesis .
qed

lemma total_net_out_zero:
  assumes "wf_net st" "skew st"
  shows "(\<Sum>x < n st. net_out st x) = 0"
proof -
  have "(\<Sum>x < n st. net_out st x) = (\<Sum>x \<in> {..<n st}. \<Sum>y \<in> {..<n st}. f st ! x ! y)"
    using assms(1) by (intro sum.cong refl) (simp add: net_out_sum)
  also have "\<dots> = 0"
  proof (rule sum_skew_zero)
    fix x y assume "x \<in> {..<n st}" "y \<in> {..<n st}"
    then have "x < n st" "y < n st" by simp_all
    with assms(2) show "f st ! x ! y = - (f st ! y ! x)" by (rule skewD)
  qed
  finally show ?thesis .
qed

lemma sink_value:
  assumes "wf_net st" "skew st" "conserved st s t" "s < n st" "t < n st" "s \<noteq> t"
  shows "net_in st t = net_out st s"
proof -
  have "(\<Sum>x < n st. net_out st x) = net_out st s + (\<Sum>x \<in> {..<n st} - {s}. net_out st x)"
    using assms(4) by (intro sum.remove) simp_all
  also have "(\<Sum>x \<in> {..<n st} - {s}. net_out st x) =
      net_out st t + (\<Sum>x \<in> {..<n st} - {s} - {t}. net_out st x)"
    using assms(5,6) by (intro sum.remove) simp_all
  also have "(\<Sum>x \<in> {..<n st} - {s} - {t}. net_out st x) = 0"
    using conservedD[OF assms(3)] by (intro sum.neutral) simp
  finally have "net_out st s + net_out st t = 0"
    using total_net_out_zero[OF assms(1,2)] by simp
  moreover have "net_in st t = - net_out st t" using assms(1,2,5) by (rule skew_net_in)
  ultimately show ?thesis by simp
qed

end
